theory Spec2Isabelle
  imports Complex_Main "HOL-Library.Word"
begin

section \<open>Strings\<close>

text \<open>
  A JavaScript string is modelled as a \<open>string\<close>: a list of code units, each below 256.
  Data URIs, base64 text and the binary strings of \<open>btoa\<close>/\<open>atob\<close> live in that
  range. Of the characters that the regular expression class \<open>\s\<close> matches, those below 256
  are TAB, LF, VT, FF, CR, SPACE and NBSP.
\<close>

definition is_js_space :: "char \<Rightarrow> bool" where
  "is_js_space c = (of_char c \<in> {9, 10, 11, 12, 13, 32, 160 :: nat})"

definition is_alnum :: "char \<Rightarrow> bool" where
  \<comment> \<open>the class \<open>[a-zA-Z0-9]\<close>\<close>
  "is_alnum c =
     (let n = (of_char c :: nat)
      in (97 \<le> n \<and> n \<le> 122) \<or> (65 \<le> n \<and> n \<le> 90) \<or> (48 \<le> n \<and> n \<le> 57))"

definition is_subtype_char :: "char \<Rightarrow> bool" where
  \<comment> \<open>the class \<open>[a-zA-Z0-9-.+]\<close>\<close>
  "is_subtype_char c = (is_alnum c \<or> c = CHR ''-'' \<or> c = CHR ''.'' \<or> c = CHR ''+'')"

definition is_dot_char :: "char \<Rightarrow> bool" where
  \<comment> \<open>what \<open>.\<close> matches: any code unit but a line terminator (LF and CR below 256)\<close>
  "is_dot_char c = (of_char c \<notin> {10, 13 :: nat})"

fun strip_prefix :: "string \<Rightarrow> string \<Rightarrow> string option" where
  "strip_prefix [] s = Some s"
| "strip_prefix (p # ps) [] = None"
| "strip_prefix (p # ps) (c # cs) = (if p = c then strip_prefix ps cs else None)"

section \<open>The request shaper: \<open>parseBase64\<close>\<close>

record parsed_image =
  mimeType :: string
  data :: string

definition clean :: "string \<Rightarrow> string" where
  \<comment> \<open>\<open>base64String.replace(/\s/g, '')\<close>\<close>
  "clean s = filter (\<lambda>c. \<not> is_js_space c) s"

text \<open>
  \<open>cleanString.match(/^data:([a-zA-Z0-9]+\/[a-zA-Z0-9-.+]+);base64,(.+)$/)\<close>.
  The expression is anchored at both ends, and each repetition is followed by a character
  outside its class (\<open>/\<close> after the first, \<open>;\<close> after the second), so a match takes
  the whole run of class characters at each repetition and backtracking finds no other split.
  The result is the pair of the two groups, \<open>None\<close> for \<open>null\<close>.
\<close>

definition match_data_uri :: "string \<Rightarrow> (string \<times> string) option" where
  "match_data_uri s =
     (case strip_prefix ''data:'' s of
        None \<Rightarrow> None
      | Some r1 \<Rightarrow>
          let a = takeWhile is_alnum r1; r2 = dropWhile is_alnum r1
          in if a = [] then None
             else (case strip_prefix ''/'' r2 of
                None \<Rightarrow> None
              | Some r3 \<Rightarrow>
                  let b = takeWhile is_subtype_char r3; r4 = dropWhile is_subtype_char r3
                  in if b = [] then None
                     else (case strip_prefix '';base64,'' r4 of
                        None \<Rightarrow> None
                      | Some d \<Rightarrow>
                          if d \<noteq> [] \<and> list_all is_dot_char d
                          then Some (a @ ''/'' @ b, d) else None)))"

text \<open>
  \<open>parts[0].match(/data:([^;]+)/)\<close>: not anchored, so the leftmost position wins where
  \<open>data:\<close> is followed by at least one character other than \<open>;\<close>; the group is the
  whole run of such characters. The result is the last element of the match array, which is
  that group.
\<close>

fun header_match :: "string \<Rightarrow> string option" where
  "header_match [] = None"
| "header_match (c # cs) =
     (case strip_prefix ''data:'' (c # cs) of
        None \<Rightarrow> header_match cs
      | Some r \<Rightarrow>
          let g = takeWhile (\<lambda>x. x \<noteq> CHR '';'') r
          in if g \<noteq> [] then Some g else header_match cs)"

definition includes_comma :: "string \<Rightarrow> bool" where
  "includes_comma s = (CHR '','' \<in> set s)"

definition before_comma :: "string \<Rightarrow> string" where
  \<comment> \<open>\<open>s.split(',')[0]\<close>\<close>
  "before_comma s = takeWhile (\<lambda>c. c \<noteq> CHR '','') s"

definition after_comma :: "string \<Rightarrow> string" where
  \<comment> \<open>\<open>s.split(',').slice(1).join(',')\<close> for an \<open>s\<close> that includes a comma\<close>
  "after_comma s = tl (dropWhile (\<lambda>c. c \<noteq> CHR '','') s)"

definition parseBase64 :: "string \<Rightarrow> parsed_image" where
  "parseBase64 base64String =
     (let cleanString = clean base64String
      in case match_data_uri cleanString of
           Some (m, d) \<Rightarrow> \<lparr>mimeType = m, data = d\<rparr>
         | None \<Rightarrow>
             if includes_comma cleanString
             then \<lparr>mimeType = (case header_match (before_comma cleanString) of
                                 Some h \<Rightarrow> h | None \<Rightarrow> ''image/jpeg''),
                   data = after_comma cleanString\<rparr>
             else \<lparr>mimeType = ''image/jpeg'', data = cleanString\<rparr>)"

section \<open>Errors and JavaScript values\<close>

datatype js_error =
    TypeError               \<comment> \<open>a property read on \<open>null\<close> or \<open>undefined\<close>\<close>
  | InvalidCharacterError   \<comment> \<open>\<open>atob\<close> on text that is not base64\<close>
  | RangeError              \<comment> \<open>an \<open>Int16Array\<close> over a buffer of odd length\<close>
  | NotSupportedError       \<comment> \<open>\<open>createBuffer\<close> with no frames\<close>
  | Error string            \<comment> \<open>\<open>throw new Error(msg)\<close>\<close>
  | Rejected string         \<comment> \<open>a promise of the AI service or the browser that rejects\<close>

section \<open>PCM encoding and decoding\<close>

text \<open>
  \<open>btoa\<close> and \<open>atob\<close> belong to the browser. They are modelled after their
  definition: \<open>btoa\<close> is the base64 encoding of RFC 4648 with padding, over the code units
  of a binary string; \<open>atob\<close> is the forgiving base64 decoding (ASCII whitespace removed,
  one or two trailing \<open>=\<close> dropped when the length is a multiple of four, failure on a
  length of 1 modulo 4 or on a character outside the alphabet, and the incomplete last group
  cut to whole bytes). \<open>None\<close> stands for the \<open>InvalidCharacterError\<close> that
  \<open>atob\<close> throws.
\<close>

definition b64_char :: "nat \<Rightarrow> char" where
  \<comment> \<open>the alphabet \<open>A-Z a-z 0-9 + /\<close> by index\<close>
  "b64_char i =
     (if i < 26 then char_of (65 + i)
      else if i < 52 then char_of (71 + i)
      else if i < 62 then char_of (i - 4)
      else if i = 62 then CHR ''+'' else CHR ''/'')"

definition b64_index :: "char \<Rightarrow> nat option" where
  "b64_index c =
     (let n = (of_char c :: nat)
      in if 65 \<le> n \<and> n \<le> 90 then Some (n - 65)
         else if 97 \<le> n \<and> n \<le> 122 then Some (n - 71)
         else if 48 \<le> n \<and> n \<le> 57 then Some (n + 4)
         else if c = CHR ''+'' then Some 62
         else if c = CHR ''/'' then Some 63
         else None)"

fun btoa :: "string \<Rightarrow> string" where
  "btoa (x # y # z # rest) =
     (let a = (of_char x :: nat); b = (of_char y :: nat); c = (of_char z :: nat)
      in [b64_char (a div 4), b64_char ((a mod 4) * 16 + b div 16),
          b64_char ((b mod 16) * 4 + c div 64), b64_char (c mod 64)]) @ btoa rest"
| "btoa [x, y] =
     (let a = (of_char x :: nat); b = (of_char y :: nat)
      in [b64_char (a div 4), b64_char ((a mod 4) * 16 + b div 16),
          b64_char ((b mod 16) * 4), CHR ''=''])"
| "btoa [x] =
     (let a = (of_char x :: nat)
      in [b64_char (a div 4), b64_char ((a mod 4) * 16), CHR ''='', CHR ''=''])"
| "btoa [] = []"

definition is_ascii_whitespace :: "char \<Rightarrow> bool" where
  "is_ascii_whitespace c = (of_char c \<in> {9, 10, 12, 13, 32 :: nat})"

definition strip_padding :: "string \<Rightarrow> string" where
  "strip_padding s =
     (if length s mod 4 = 0 \<and> s \<noteq> [] \<and> last s = CHR ''=''
      then (if butlast s \<noteq> [] \<and> last (butlast s) = CHR ''=''
            then butlast (butlast s) else butlast s)
      else s)"

fun b64_groups :: "nat list \<Rightarrow> string" where
  "b64_groups (p # q # r # s # rest) =
     [char_of (p * 4 + q div 16), char_of ((q mod 16) * 16 + r div 4),
      char_of ((r mod 4) * 64 + s)] @ b64_groups rest"
| "b64_groups [p, q, r] = [char_of (p * 4 + q div 16), char_of ((q mod 16) * 16 + r div 4)]"
| "b64_groups [p, q] = [char_of (p * 4 + q div 16)]"
| "b64_groups [p] = []"
| "b64_groups [] = []"

definition atob :: "string \<Rightarrow> string option" where
  "atob s =
     (let d = strip_padding (filter (\<lambda>c. \<not> is_ascii_whitespace c) s)
      in if length d mod 4 = 1 then None
         else (case those (map b64_index d) of
                 None \<Rightarrow> None
               | Some v \<Rightarrow> Some (b64_groups v)))"

type_synonym byte = "8 word"

text \<open>
  \<open>encode\<close>: the loop appends \<open>String.fromCharCode(bytes[i])\<close> for \<open>i\<close> from 0 to
  the length, then \<open>btoa\<close> encodes the string.
\<close>

function encode_loop :: "byte list \<Rightarrow> nat \<Rightarrow> string \<Rightarrow> string" where
  "encode_loop bytes i binary =
     (if i < length bytes
      then encode_loop bytes (i + 1) (binary @ [char_of (unat (bytes ! i))])
      else binary)"
  by pat_completeness auto
termination
  by (relation "measure (\<lambda>(bytes, i, binary). length bytes - i)") auto

definition encode :: "byte list \<Rightarrow> string" where
  "encode bytes = btoa (encode_loop bytes 0 [])"

text \<open>
  \<open>decode\<close>: a zeroed \<open>Uint8Array\<close> of the length of the binary string, filled by index
  with \<open>charCodeAt(i)\<close>; a store into a \<open>Uint8Array\<close> keeps the value modulo 256.
\<close>

function decode_loop :: "string \<Rightarrow> nat \<Rightarrow> byte list \<Rightarrow> byte list" where
  "decode_loop binaryString i bytes =
     (if i < length binaryString
      then decode_loop binaryString (i + 1) (bytes[i := of_nat (of_char (binaryString ! i))])
      else bytes)"
  by pat_completeness auto
termination
  by (relation "measure (\<lambda>(binaryString, i, bytes). length binaryString - i)") auto

definition decode :: "string \<Rightarrow> js_error + byte list" where
  "decode base64 =
     (case atob base64 of
        None \<Rightarrow> Inl InvalidCharacterError
      | Some binaryString \<Rightarrow>
          Inr (decode_loop binaryString 0 (replicate (length binaryString) 0)))"

section \<open>JavaScript values and responses of the AI service\<close>

text \<open>
  What \<open>JSON.parse\<close> returns: a value of any JSON shape. An object is the list of its
  properties, read with \<open>map_of\<close>. Numbers are carried as reals; the code only tests them
  for truth and passes them on.
\<close>

datatype js =
    JUndefined
  | JNull
  | JBool bool
  | JNum real
  | JStr string
  | JArr "js list"
  | JObj "(string \<times> js) list"

fun truthy :: "js \<Rightarrow> bool" where
  "truthy JUndefined = False"
| "truthy JNull = False"
| "truthy (JBool b) = b"
| "truthy (JNum n) = (n \<noteq> 0)"
| "truthy (JStr s) = (s \<noteq> [])"
| "truthy (JArr xs) = True"
| "truthy (JObj kvs) = True"

text \<open>
  \<open>v.k\<close> for the property names this code reads (\<open>name\<close>, \<open>description\<close>,
  \<open>floorPlanJson\<close>, \<open>costs\<close> and the names inside them): a \<open>TypeError\<close> on
  \<open>null\<close> and \<open>undefined\<close>, the property or \<open>undefined\<close> on an object, and
  \<open>undefined\<close> on a boolean, number, string or array, none of which has a property of
  one of these names.
\<close>

fun get_prop :: "js \<Rightarrow> string \<Rightarrow> js_error + js" where
  "get_prop JUndefined k = Inl TypeError"
| "get_prop JNull k = Inl TypeError"
| "get_prop (JObj kvs) k = Inr (case map_of kvs k of None \<Rightarrow> JUndefined | Some v \<Rightarrow> v)"
| "get_prop v k = Inr JUndefined"

definition js_or :: "js \<Rightarrow> js \<Rightarrow> js" where
  \<comment> \<open>\<open>a || b\<close>\<close>
  "js_or a b = (if truthy a then a else b)"

record part =
  inlineData :: "string option"   \<comment> \<open>\<open>p.inlineData.data\<close> when \<open>p.inlineData\<close> is there\<close>

record web_source =
  title :: "string option"
  uri :: "string option"

record grounding_chunk =
  web :: "web_source option"

record candidate =
  parts :: "part list option"                       \<comment> \<open>\<open>content?.parts\<close>\<close>
  groundingChunks :: "grounding_chunk list option"  \<comment> \<open>\<open>groundingMetadata?.groundingChunks\<close>\<close>

text \<open>
  A response carries its text and, since \<open>JSON.parse\<close> belongs to the platform, what
  \<open>JSON.parse\<close> makes of that text: \<open>None\<close> when it throws a \<open>SyntaxError\<close>.
\<close>

record response =
  candidates :: "candidate list option"
  responseText :: "string option"
  parsedText :: "js option"

text \<open>
  A request to \<open>ai.models.generateContent\<close>. The wording of the prompt plays no part
  below and is left out; a request keeps the model, the inline image if it sends one, and the
  aspect ratio if it asks for one.
\<close>

record request =
  model :: string
  image :: "parsed_image option"
  aspectRatio :: "string option"

type_synonym ai_service = "request \<Rightarrow> js_error + response"

definition extractImage :: "response option \<Rightarrow> js_error + string option" where
  "extractImage response =
     (case response of
        None \<Rightarrow> Inl TypeError   \<comment> \<open>\<open>response.candidates\<close> on \<open>null\<close>\<close>
      | Some r \<Rightarrow>
          (case (case candidates r of None \<Rightarrow> [] | Some cs \<Rightarrow> cs) of
             [] \<Rightarrow> Inr None
           | c # _ \<Rightarrow>
               (case parts c of
                  None \<Rightarrow> Inr None
                | Some ps \<Rightarrow>
                    (case find (\<lambda>p. inlineData p \<noteq> None) ps of
                       None \<Rightarrow> Inr None
                     | Some p \<Rightarrow>
                         (case inlineData p of
                            None \<Rightarrow> Inr None
                          | Some d \<Rightarrow> Inr (Some (''data:image/png;base64,'' @ d)))))))"

section \<open>The request shaper: operations\<close>

text \<open>
  Every operation returns the requests it has issued, in order, next to its result; a thrown
  error or a rejected promise is \<open>Inl\<close>.
\<close>

record reference =
  ref_title :: string
  ref_uri :: string

record site_discovery =
  analysis :: string
  references :: "reference list"

definition str_or :: "string option \<Rightarrow> string \<Rightarrow> string" where
  \<comment> \<open>\<open>s || d\<close> on a string that may be missing\<close>
  "str_or s d = (case s of None \<Rightarrow> d | Some x \<Rightarrow> if x = [] then d else x)"

definition chunk_source :: "grounding_chunk \<Rightarrow> reference list" where
  \<comment> \<open>one chunk mapped to \<open>{title, uri}\<close>, kept by \<open>filter\<close> when its \<open>uri\<close> is truthy\<close>
  "chunk_source chunk =
     (case (case web chunk of None \<Rightarrow> None | Some w \<Rightarrow> uri w) of
        None \<Rightarrow> []
      | Some u \<Rightarrow>
          if u = [] then []
          else [\<lparr>ref_title = str_or (case web chunk of None \<Rightarrow> None | Some w \<Rightarrow> title w)
                               ''Architectural Source'',
                 ref_uri = u\<rparr>])"

definition sources :: "response \<Rightarrow> reference list" where
  "sources r =
     (case (case candidates r of None \<Rightarrow> [] | Some cs \<Rightarrow> cs) of
        [] \<Rightarrow> []
      | c # _ \<Rightarrow>
          (case groundingChunks c of
             None \<Rightarrow> []
           | Some chunks \<Rightarrow> concat (map chunk_source chunks)))"

definition analyzeSite :: "ai_service \<Rightarrow> string \<Rightarrow> request list \<times> (js_error + site_discovery)" where
  "analyzeSite ai base64Image =
     (let p = parseBase64 base64Image
      in if data p = [] then ([], Inl (Error ''Invalid image data''))
         else
           let req = \<lparr>model = ''gemini-3-flash-preview'', image = Some p, aspectRatio = None\<rparr>
           in (case ai req of
                 Inl e \<Rightarrow> ([req], Inl e)
               | Inr r \<Rightarrow>
                   ([req], Inr \<lparr>analysis = str_or (responseText r) ''Site analysis finalized.'',
                                references = sources r\<rparr>)))"

definition promptEditImage :: "ai_service \<Rightarrow> string \<Rightarrow> string \<Rightarrow> request list \<times> (js_error + string)" where
  "promptEditImage ai base64Image prompt =
     (let p = parseBase64 base64Image;
          req = \<lparr>model = ''gemini-2.5-flash-image'', image = Some p, aspectRatio = None\<rparr>
      in (case ai req of
            Inl e \<Rightarrow> ([req], Inl e)
          | Inr r \<Rightarrow>
              ([req],
               (case extractImage (Some r) of
                  Inl e \<Rightarrow> Inl e
                | Inr img \<Rightarrow> Inr (str_or img base64Image)))))"

datatype project_type = RESIDENTIAL | COMMERCIAL | MIXED_USE | VILLA

datatype architectural_style =
  MODERN | MINIMALIST | LUXURY | TRADITIONAL | ECO_FRIENDLY | INDUSTRIAL

datatype budget_range = Low | Medium | High

record design_preferences =
  projectType :: project_type
  style :: architectural_style
  floors :: nat
  budgetRange :: budget_range
  materials :: "string list"

record visualizations_rec =
  exterior :: string
  interior :: string
  plan :: string

record design_version =
  version_id :: string
  version_name :: string
  version_timestamp :: string
  version_visualizations :: visualizations_rec
  version_preferences :: design_preferences

text \<open>
  The four fields that come from the parsed response are JavaScript values of whatever
  shape the response had: nothing in the code checks them against the interface
  \<open>ArchitecturalDesign\<close>.
\<close>

record architectural_design =
  design_id :: string
  name :: js
  description :: js
  siteAnalysis :: string
  preferences :: design_preferences
  floorPlanJson :: js
  visualizations :: visualizations_rec
  costs :: js
  versions :: "design_version list"
  createdAt :: string

definition default_name :: js where
  "default_name = JStr ''Real-World Synthesis Design''"

definition default_description :: js where
  "default_description = JStr ''Synthesized simulation based on real-world architectural data.''"

definition default_floorPlanJson :: js where
  "default_floorPlanJson =
     JObj [(''rooms'', JArr []), (''totalArea'', JStr ''N/A''), (''analysis'', JStr [])]"

definition default_costs :: js where
  "default_costs = JObj [(''estimatedTotal'', JNum 0), (''breakdown'', JArr [])]"

definition placeholder_exterior :: string where
  "placeholder_exterior = ''https://images.unsplash.com/photo-1600585154340-be6161a56a0c''"

definition placeholder_interior :: string where
  "placeholder_interior = ''https://images.unsplash.com/photo-1600210492486-724fe5c67fb0''"

definition placeholder_plan :: string where
  "placeholder_plan = ''https://images.unsplash.com/photo-1503387762-592deb58ef4e''"

definition designData :: "response \<Rightarrow> js" where
  \<comment> \<open>\<open>try { JSON.parse(conceptResponse.text || "{}") } catch (e) { {} }\<close>\<close>
  "designData r =
     (if responseText r = None \<or> responseText r = Some [] then JObj []
      else (case parsedText r of None \<Rightarrow> JObj [] | Some v \<Rightarrow> v))"

definition field_or :: "js \<Rightarrow> string \<Rightarrow> js \<Rightarrow> js_error + js" where
  \<comment> \<open>\<open>designData.k || d\<close>\<close>
  "field_or v k d = (case get_prop v k of Inl e \<Rightarrow> Inl e | Inr x \<Rightarrow> Inr (js_or x d))"

record finalized =
  fin_name :: js
  fin_description :: js
  fin_floorPlanJson :: js
  fin_costs :: js

definition finalizedDesignData :: "js \<Rightarrow> js_error + finalized" where
  "finalizedDesignData d =
     (case field_or d ''name'' default_name of
        Inl e \<Rightarrow> Inl e
      | Inr n \<Rightarrow>
          (case field_or d ''description'' default_description of
             Inl e \<Rightarrow> Inl e
           | Inr ds \<Rightarrow>
               (case field_or d ''floorPlanJson'' default_floorPlanJson of
                  Inl e \<Rightarrow> Inl e
                | Inr f \<Rightarrow>
                    (case field_or d ''costs'' default_costs of
                       Inl e \<Rightarrow> Inl e
                     | Inr c \<Rightarrow>
                         Inr \<lparr>fin_name = n, fin_description = ds,
                              fin_floorPlanJson = f, fin_costs = c\<rparr>))))"

definition concept_request :: request where
  "concept_request = \<lparr>model = ''gemini-3-flash-preview'', image = None, aspectRatio = None\<rparr>"

definition exterior_request :: "parsed_image \<Rightarrow> request" where
  "exterior_request p =
     \<lparr>model = ''gemini-2.5-flash-image'', image = Some p, aspectRatio = Some ''16:9''\<rparr>"

definition plan_request :: "parsed_image \<Rightarrow> request" where
  "plan_request p =
     \<lparr>model = ''gemini-2.5-flash-image'', image = Some p, aspectRatio = Some ''4:3''\<rparr>"

definition image_results :: "ai_service \<Rightarrow> parsed_image \<Rightarrow> response option \<times> response option" where
  \<comment> \<open>\<open>Promise.all([exterior, plan]).catch(() => [null, null])\<close>\<close>
  "image_results ai p =
     (case (ai (exterior_request p), ai (plan_request p)) of
        (Inr extRes, Inr planRes) \<Rightarrow> (Some extRes, Some planRes)
      | _ \<Rightarrow> (None, None))"

text \<open>
  \<open>generateDesignConcept\<close>. The identifier drawn from \<open>Math.random\<close> and the time
  stamp of \<open>new Date\<close> are inputs.
\<close>

definition generateDesignConcept ::
  "ai_service \<Rightarrow> string \<Rightarrow> string \<Rightarrow> string \<Rightarrow> design_preferences \<Rightarrow> site_discovery
     \<Rightarrow> request list \<times> (js_error + architectural_design)" where
  "generateDesignConcept ai randomId now base64Image prefs discovery =
     (let p = parseBase64 base64Image
      in (case ai concept_request of
            Inl e \<Rightarrow> ([concept_request], Inl e)
          | Inr conceptResponse \<Rightarrow>
              (case finalizedDesignData (designData conceptResponse) of
                 Inl e \<Rightarrow> ([concept_request], Inl e)
               | Inr fin \<Rightarrow>
                   (let (extRes, planRes) = image_results ai p;
                        reqs = [concept_request, exterior_request p, plan_request p]
                    in (case extractImage extRes of
                          Inl e \<Rightarrow> (reqs, Inl e)
                        | Inr ext \<Rightarrow>
                            (case extractImage planRes of
                               Inl e \<Rightarrow> (reqs, Inl e)
                             | Inr pl \<Rightarrow>
                                 (reqs,
                                  Inr \<lparr>design_id = randomId,
                                       name = fin_name fin,
                                       description = fin_description fin,
                                       siteAnalysis = analysis discovery,
                                       preferences = prefs,
                                       floorPlanJson = fin_floorPlanJson fin,
                                       visualizations =
                                         \<lparr>exterior = str_or ext placeholder_exterior,
                                          interior = placeholder_interior,
                                          plan = str_or pl placeholder_plan\<rparr>,
                                       costs = fin_costs fin,
                                       versions = [],
                                       createdAt = now\<rparr>)))))))"

section \<open>The pipeline orchestrator\<close>

datatype view_mode = Landing | Dashboard | Wizard | Detail | Inspiration

record app_state =
  viewMode :: view_mode
  step :: nat
  uploadedImage :: "string option"
  siteDiscovery :: "site_discovery option"
  statePreferences :: design_preferences
  isGenerating :: bool
  generatedDesign :: "architectural_design option"
  projects :: "architectural_design list"
  currentCostData :: "js option"

definition initial_app :: app_state where
  "initial_app =
     \<lparr>viewMode = Landing, step = 0, uploadedImage = None, siteDiscovery = None,
      statePreferences =
        \<lparr>projectType = RESIDENTIAL, style = MODERN, floors = 2, budgetRange = Medium,
         materials = [''Glass'', ''Concrete'', ''Timber'']\<rparr>,
      isGenerating = False, generatedDesign = None, projects = [], currentCostData = None\<rparr>"

text \<open>
  \<open>startDiscovery\<close> and \<open>startSynthesis\<close> each await one call of the request shaper.
  A handler is modelled in two steps: the part up to the \<open>await\<close>, which writes the state
  and starts the call, and the part after it, which runs when the call returns; other
  handlers may run in between. The orchestrator keeps, next to the state of the page, the
  calls it has started, in order, each with its arguments and with whether it is still
  awaited. The service that answers a call is fixed when the call starts.
\<close>

record discovery_call =
  discoveryService :: ai_service
  discoveryImage :: string
  discoveryAwaited :: bool

record synthesis_call =
  synthesisService :: ai_service
  synthesisId :: string
  synthesisTime :: string
  synthesisImage :: string
  synthesisPreferences :: design_preferences
  synthesisDiscovery :: site_discovery
  synthesisAwaited :: bool

record orchestrator =
  page :: app_state
  discoveryCalls :: "discovery_call list"
  synthesisCalls :: "synthesis_call list"

definition initial_orchestrator :: orchestrator where
  "initial_orchestrator = \<lparr>page = initial_app, discoveryCalls = [], synthesisCalls = []\<rparr>"

definition startDiscovery :: "ai_service \<Rightarrow> string \<Rightarrow> orchestrator \<Rightarrow> orchestrator" where
  \<comment> \<open>up to \<open>await analyzeSite(img)\<close>\<close>
  "startDiscovery ai img s =
     s\<lparr>page := (page s)\<lparr>uploadedImage := Some img, viewMode := Wizard, step := 0,
                          isGenerating := True\<rparr>,
       discoveryCalls := discoveryCalls s @
         [\<lparr>discoveryService = ai, discoveryImage = img, discoveryAwaited = True\<rparr>]\<rparr>"

definition discovery_result :: "discovery_call \<Rightarrow> js_error + site_discovery" where
  "discovery_result c = snd (analyzeSite (discoveryService c) (discoveryImage c))"

definition startDiscovery_resumed :: "nat \<Rightarrow> orchestrator \<Rightarrow> orchestrator" where
  \<comment> \<open>after the \<open>await\<close> of call \<open>k\<close>: the \<open>try\<close> block goes on, or the \<open>catch\<close> logs;
      \<open>finally\<close> clears \<open>isGenerating\<close>\<close>
  "startDiscovery_resumed k s =
     (let c = discoveryCalls s ! k;
          s1 = s\<lparr>discoveryCalls := (discoveryCalls s)[k := c\<lparr>discoveryAwaited := False\<rparr>]\<rparr>
      in (case discovery_result c of
            Inr discovery \<Rightarrow>
              s1\<lparr>page := (page s)\<lparr>siteDiscovery := Some discovery, step := 1,
                                    isGenerating := False\<rparr>\<rparr>
          | Inl e \<Rightarrow> s1\<lparr>page := (page s)\<lparr>isGenerating := False\<rparr>\<rparr>))"

definition startSynthesis :: "ai_service \<Rightarrow> string \<Rightarrow> string \<Rightarrow> orchestrator \<Rightarrow> orchestrator" where
  \<comment> \<open>up to \<open>await generateDesignConcept(uploadedImage, preferences, siteDiscovery)\<close>\<close>
  "startSynthesis ai randomId now s =
     (case uploadedImage (page s) of
        None \<Rightarrow> s
      | Some img \<Rightarrow>
          if img = [] then s
          else (case siteDiscovery (page s) of
             None \<Rightarrow> s
           | Some discovery \<Rightarrow>
               s\<lparr>page := (page s)\<lparr>isGenerating := True, step := 2\<rparr>,
                 synthesisCalls := synthesisCalls s @
                   [\<lparr>synthesisService = ai, synthesisId = randomId, synthesisTime = now,
                     synthesisImage = img, synthesisPreferences = statePreferences (page s),
                     synthesisDiscovery = discovery, synthesisAwaited = True\<rparr>]\<rparr>))"

definition synthesis_result :: "synthesis_call \<Rightarrow> js_error + architectural_design" where
  "synthesis_result c =
     snd (generateDesignConcept (synthesisService c) (synthesisId c) (synthesisTime c)
            (synthesisImage c) (synthesisPreferences c) (synthesisDiscovery c))"

definition startSynthesis_resumed :: "nat \<Rightarrow> orchestrator \<Rightarrow> orchestrator" where
  \<comment> \<open>after the \<open>await\<close> of call \<open>k\<close>\<close>
  "startSynthesis_resumed k s =
     (let c = synthesisCalls s ! k;
          s1 = s\<lparr>synthesisCalls := (synthesisCalls s)[k := c\<lparr>synthesisAwaited := False\<rparr>]\<rparr>
      in (case synthesis_result c of
            Inr design \<Rightarrow>
              s1\<lparr>page := (page s)\<lparr>generatedDesign := Some design,
                                    projects := design # projects (page s),
                                    currentCostData := Some (costs design),
                                    viewMode := Detail, isGenerating := False\<rparr>\<rparr>
          | Inl e \<Rightarrow> s1\<lparr>page := (page s)\<lparr>isGenerating := False\<rparr>\<rparr>))"

text \<open>
  The events of the orchestrator: a handler starts, a call returns, and the handlers of the
  page that set the view mode, the style and the project shown. No other handler of the
  page writes \<open>step\<close>, \<open>uploadedImage\<close>, \<open>siteDiscovery\<close> or \<open>projects\<close>;
  \<open>handleRefineRealism\<close> writes \<open>isGenerating\<close> and \<open>generatedDesign\<close>, which the two
  handlers never read. \<open>startSynthesis\<close> may be started in any state, also where the page
  does not show its button or shows it disabled. A call returns once, and only a project of
  the list can be opened; otherwise the step is \<open>None\<close>. The calls may return in any order.
\<close>

datatype app_event =
    StartDiscovery ai_service string
  | DiscoveryReturns nat
  | StartSynthesis ai_service string string
  | SynthesisReturns nat
  | SetViewMode view_mode
  | SetStyle architectural_style
  | OpenProject nat

fun app_step :: "app_event \<Rightarrow> orchestrator \<Rightarrow> orchestrator option" where
  "app_step (StartDiscovery ai img) s = Some (startDiscovery ai img s)"
| "app_step (DiscoveryReturns k) s =
     (if k < length (discoveryCalls s) \<and> discoveryAwaited (discoveryCalls s ! k)
      then Some (startDiscovery_resumed k s) else None)"
| "app_step (StartSynthesis ai randomId now) s = Some (startSynthesis ai randomId now s)"
| "app_step (SynthesisReturns k) s =
     (if k < length (synthesisCalls s) \<and> synthesisAwaited (synthesisCalls s ! k)
      then Some (startSynthesis_resumed k s) else None)"
| "app_step (SetViewMode v) s = Some (s\<lparr>page := (page s)\<lparr>viewMode := v\<rparr>\<rparr>)"
| "app_step (SetStyle st) s =
     Some (s\<lparr>page := (page s)\<lparr>statePreferences := (statePreferences (page s))\<lparr>style := st\<rparr>\<rparr>\<rparr>)"
| "app_step (OpenProject k) s =
     (if k < length (projects (page s))
      then Some (s\<lparr>page := (page s)\<lparr>generatedDesign := Some (projects (page s) ! k),
                                      currentCostData := Some (costs (projects (page s) ! k)),
                                      viewMode := Detail\<rparr>\<rparr>)
      else None)"

fun app_run :: "app_event list \<Rightarrow> orchestrator \<Rightarrow> orchestrator option" where
  "app_run [] s = Some s"
| "app_run (e # es) s =
     (case app_step e s of None \<Rightarrow> None | Some s' \<Rightarrow> app_run es s')"

section \<open>The capture flow\<close>

datatype phase = Aligning | Ready

datatype facing_mode = User | Environment

record capture_state =
  phase :: phase
  syncProgress :: nat
  captureError :: "string option"
  facingMode :: facing_mode

definition initial_capture :: capture_state where
  "initial_capture =
     \<lparr>phase = Aligning, syncProgress = 0, captureError = None, facingMode = Environment\<rparr>"

definition next_progress :: "nat \<Rightarrow> nat \<Rightarrow> nat" where
  \<comment> \<open>the updater of the interval; \<open>r\<close> is \<open>Math.floor(Math.random() * 15)\<close>\<close>
  "next_progress r prev = (if prev \<ge> 100 then 100 else prev + r)"

definition set_point_enabled :: "capture_state \<Rightarrow> bool" where
  \<comment> \<open>the button Set Point is rendered and not disabled\<close>
  "set_point_enabled s =
     (captureError s = None \<and> phase s = Aligning \<and> \<not> syncProgress s < 100)"

definition capture_available :: "capture_state \<Rightarrow> bool" where
  \<comment> \<open>the button bound to \<open>captureFrame\<close> is rendered\<close>
  "capture_available s = (captureError s = None \<and> phase s \<noteq> Aligning)"

datatype capture_event =
    Tick nat            \<comment> \<open>the interval fires; the draw of \<open>Math.floor(Math.random() * 15)\<close>\<close>
  | SetPoint
  | CaptureFrame
  | SwitchCamera
  | Retry
  | CameraFailed string

text \<open>
  One step of the capture flow; \<open>None\<close> when the event cannot happen in the state: the
  interval runs only while aligning without an error and draws below 15, and a button can
  be pressed only when it is rendered and not disabled.
\<close>

fun capture_step :: "capture_event \<Rightarrow> capture_state \<Rightarrow> capture_state option" where
  "capture_step (Tick r) s =
     (if phase s = Aligning \<and> captureError s = None \<and> r < 15
      then Some (s\<lparr>syncProgress := next_progress r (syncProgress s)\<rparr>) else None)"
| "capture_step SetPoint s =
     (if set_point_enabled s then Some (s\<lparr>phase := Ready\<rparr>) else None)"
| "capture_step CaptureFrame s = (if capture_available s then Some s else None)"
| "capture_step SwitchCamera s =
     (if capture_available s
      then Some (s\<lparr>facingMode := (if facingMode s = User then Environment else User)\<rparr>)
      else None)"
| "capture_step Retry s =
     (if capture_available s then Some (s\<lparr>phase := Aligning\<rparr>) else None)"
| "capture_step (CameraFailed msg) s = Some (s\<lparr>captureError := Some msg\<rparr>)"

fun capture_run :: "capture_event list \<Rightarrow> capture_state \<Rightarrow> capture_state option" where
  "capture_run [] s = Some s"
| "capture_run (e # es) s =
     (case capture_step e s of None \<Rightarrow> None | Some s' \<Rightarrow> capture_run es s')"

fun progress_run :: "nat list \<Rightarrow> nat \<Rightarrow> nat" where
  \<comment> \<open>the readiness value after the interval has fired with the given draws\<close>
  "progress_run [] v = v"
| "progress_run (r # rs) v = progress_run rs (next_progress r v)"

section \<open>The realtime voice session\<close>

record audio_buffer =
  frameCount :: nat
  sampleRate :: nat

definition duration :: "audio_buffer \<Rightarrow> real" where
  "duration b = real (frameCount b) / real (sampleRate b)"

text \<open>
  \<open>decodeAudioData\<close>: an \<open>Int16Array\<close> over the bytes needs an even byte length, and
  \<open>createBuffer\<close> needs at least one frame. The sample values written into the buffer
  are left out.
\<close>

definition decodeAudioData :: "byte list \<Rightarrow> nat \<Rightarrow> nat \<Rightarrow> js_error + audio_buffer" where
  "decodeAudioData bytes rate numChannels =
     (if odd (length bytes) then Inl RangeError
      else let n = (length bytes div 2) div numChannels
           in if n = 0 then Inl NotSupportedError
              else Inr \<lparr>frameCount = n, sampleRate = rate\<rparr>)"

record model_turn =
  turnParts :: "part list option"

record server_content =
  modelTurn :: "model_turn option"

record live_message =
  serverContent :: "server_content option"

definition base64Audio :: "live_message \<Rightarrow> js_error + string option" where
  \<comment> \<open>\<open>message.serverContent?.modelTurn?.parts[0]?.inlineData?.data\<close>\<close>
  "base64Audio m =
     (case serverContent m of
        None \<Rightarrow> Inr None
      | Some sc \<Rightarrow>
          (case modelTurn sc of
             None \<Rightarrow> Inr None
           | Some mt \<Rightarrow>
               (case turnParts mt of
                  None \<Rightarrow> Inl TypeError
                | Some [] \<Rightarrow> Inr None
                | Some (p # _) \<Rightarrow> Inr (inlineData p))))"

text \<open>
  The browser and the service as the session sees them: live sessions, microphone streams,
  audio contexts and buffer sources are numbered in the order of their creation. A buffer
  source keeps the clock value read when it was scheduled, the time given to \<open>start\<close> and
  the duration of its buffer. Times are reals.
\<close>

datatype session_status = Connecting | Opened | Closing | Closed

record buffer_source =
  sampledClock :: real
  startAt :: real
  bufferDuration :: real
  stopped :: bool

text \<open>
  A call of \<open>handleVoiceConsult\<close> that has passed the guard waits first for
  \<open>getUserMedia\<close>, then for the session promise.
\<close>

datatype invocation = AwaitMic | AwaitSession nat | Settled

record voice_state =
  isVoiceConsultOpen :: bool
  isConnecting :: bool
  liveSessionRef :: "nat option"
  micStreamRef :: "nat option"
  inputAudioCtxRef :: "nat option"
  outputAudioCtxRef :: "nat option"
  nextStartTimeRef :: real
  audioSourcesRef :: "nat list"
  sessions :: "session_status list"
  micLive :: "bool list"
  contextOpen :: "bool list"
  bufferSources :: "buffer_source list"
  invocations :: "invocation list"

definition initial_voice :: voice_state where
  "initial_voice =
     \<lparr>isVoiceConsultOpen = False, isConnecting = False, liveSessionRef = None,
      micStreamRef = None, inputAudioCtxRef = None, outputAudioCtxRef = None,
      nextStartTimeRef = 0, audioSourcesRef = [], sessions = [], micLive = [],
      contextOpen = [], bufferSources = [], invocations = []\<rparr>"

definition close_session :: "nat option \<Rightarrow> session_status list \<Rightarrow> session_status list" where
  \<comment> \<open>\<open>session.close()\<close>: the socket starts to close; its \<open>onclose\<close> comes later\<close>
  "close_session r ss =
     (case r of
        None \<Rightarrow> ss
      | Some i \<Rightarrow> if i < length ss \<and> (ss ! i = Connecting \<or> ss ! i = Opened)
                  then ss[i := Closing] else ss)"

definition switch_off :: "nat option \<Rightarrow> bool list \<Rightarrow> bool list" where
  \<comment> \<open>stopping the tracks of a stream, closing a context\<close>
  "switch_off r xs = (case r of None \<Rightarrow> xs | Some i \<Rightarrow> xs[i := False])"

definition stop_sources :: "nat list \<Rightarrow> buffer_source list \<Rightarrow> buffer_source list" where
  "stop_sources ids bs = fold (\<lambda>i acc. acc[i := (acc ! i)\<lparr>stopped := True\<rparr>]) ids bs"

definition stopVoiceSession :: "voice_state \<Rightarrow> voice_state" where
  "stopVoiceSession s =
     s\<lparr>sessions := close_session (liveSessionRef s) (sessions s),
       micLive := switch_off (micStreamRef s) (micLive s),
       contextOpen := switch_off (outputAudioCtxRef s) (switch_off (inputAudioCtxRef s) (contextOpen s)),
       bufferSources := stop_sources (audioSourcesRef s) (bufferSources s),
       audioSourcesRef := [],
       isVoiceConsultOpen := False,
       isConnecting := False\<rparr>"

text \<open>
  \<open>handleVoiceConsult\<close> up to its first \<open>await\<close>, and its continuations: after the
  microphone is granted, after the session promise resolves, and the \<open>catch\<close> block.
\<close>

definition handleVoiceConsult :: "voice_state \<Rightarrow> voice_state" where
  "handleVoiceConsult s =
     (if isVoiceConsultOpen s \<or> isConnecting s then stopVoiceSession s
      else s\<lparr>isConnecting := True, invocations := invocations s @ [AwaitMic]\<rparr>)"

definition after_microphone :: "nat \<Rightarrow> voice_state \<Rightarrow> voice_state" where
  "after_microphone k s =
     s\<lparr>micStreamRef := Some (length (micLive s)),
       micLive := micLive s @ [True],
       inputAudioCtxRef := Some (length (contextOpen s)),
       outputAudioCtxRef := Some (length (contextOpen s) + 1),
       contextOpen := contextOpen s @ [True, True],
       sessions := sessions s @ [Connecting],
       invocations := (invocations s)[k := AwaitSession (length (sessions s))]\<rparr>"

definition after_connect :: "nat \<Rightarrow> nat \<Rightarrow> voice_state \<Rightarrow> voice_state" where
  "after_connect k sid s =
     s\<lparr>liveSessionRef := Some sid, invocations := (invocations s)[k := Settled]\<rparr>"

definition catch_block :: "nat \<Rightarrow> voice_state \<Rightarrow> voice_state" where
  "catch_block k s =
     stopVoiceSession (s\<lparr>isConnecting := False, invocations := (invocations s)[k := Settled]\<rparr>)"

definition onopen :: "voice_state \<Rightarrow> voice_state" where
  "onopen s = s\<lparr>isConnecting := False, isVoiceConsultOpen := True\<rparr>"

definition onmessage :: "real \<Rightarrow> live_message \<Rightarrow> voice_state \<Rightarrow> voice_state" where
  \<comment> \<open>\<open>currentTime\<close> is the clock of the output context as the handler reads it\<close>
  "onmessage currentTime message s =
     (case base64Audio message of
        Inl e \<Rightarrow> s
      | Inr None \<Rightarrow> s
      | Inr (Some b) \<Rightarrow>
          if b = [] \<or> outputAudioCtxRef s = None then s
          else
            let t = max (nextStartTimeRef s) currentTime;
                s1 = s\<lparr>nextStartTimeRef := t\<rparr>
            in (case decode b of
                  Inl e \<Rightarrow> s1
                | Inr bytes \<Rightarrow>
                    (case decodeAudioData bytes 24000 1 of
                       Inl e \<Rightarrow> s1
                     | Inr audioBuffer \<Rightarrow>
                         s1\<lparr>bufferSources := bufferSources s @
                               [\<lparr>sampledClock = currentTime, startAt = t,
                                 bufferDuration = duration audioBuffer, stopped = False\<rparr>],
                            nextStartTimeRef := t + duration audioBuffer,
                            audioSourcesRef := audioSourcesRef s @ [length (bufferSources s)]\<rparr>)))"

fun handle_messages :: "(real \<times> live_message) list \<Rightarrow> voice_state \<Rightarrow> voice_state" where
  "handle_messages [] s = s"
| "handle_messages ((currentTime, message) # ms) s =
     handle_messages ms (onmessage currentTime message s)"

fun scheduled_in_order :: "real \<Rightarrow> buffer_source list \<Rightarrow> bool" where
  \<comment> \<open>every source starts at or after the end of the one before it and at or after the
      clock value read for it, and no duration is negative\<close>
  "scheduled_in_order e [] = True"
| "scheduled_in_order e (b # bs) =
     (e \<le> startAt b \<and> sampledClock b \<le> startAt b \<and> 0 \<le> bufferDuration b \<and>
      scheduled_in_order (startAt b + bufferDuration b) bs)"

text \<open>
  The events of the voice session. The user presses the voice button of the navigation bar
  (disabled while connecting) or the button of the overlay (rendered while open); the
  browser answers \<open>getUserMedia\<close>; the service opens a session, settles the session
  promise, sends a message, reports an error, or reports that a session has closed.
\<close>

datatype voice_event =
    PressVoice
  | PressTerminate
  | MicGranted nat
  | MicDenied nat
  | SessionOpens nat
  | ConnectResolves nat
  | ConnectRejects nat
  | SessionMessage nat real live_message
  | SessionError nat
  | SessionCloses nat

definition awaiting_mic :: "nat \<Rightarrow> voice_state \<Rightarrow> bool" where
  "awaiting_mic k s = (k < length (invocations s) \<and> invocations s ! k = AwaitMic)"

definition awaiting_session :: "nat \<Rightarrow> nat \<Rightarrow> voice_state \<Rightarrow> bool" where
  "awaiting_session k sid s =
     (k < length (invocations s) \<and> invocations s ! k = AwaitSession sid)"

definition session_is :: "nat \<Rightarrow> session_status \<Rightarrow> voice_state \<Rightarrow> bool" where
  "session_is sid st s = (sid < length (sessions s) \<and> sessions s ! sid = st)"

definition set_session :: "nat \<Rightarrow> session_status \<Rightarrow> voice_state \<Rightarrow> voice_state" where
  "set_session sid st s = s\<lparr>sessions := (sessions s)[sid := st]\<rparr>"

fun voice_step :: "voice_event \<Rightarrow> voice_state \<Rightarrow> voice_state option" where
  "voice_step PressVoice s =
     (if isConnecting s then None else Some (handleVoiceConsult s))"
| "voice_step PressTerminate s =
     (if isVoiceConsultOpen s then Some (stopVoiceSession s) else None)"
| "voice_step (MicGranted k) s =
     (if awaiting_mic k s then Some (after_microphone k s) else None)"
| "voice_step (MicDenied k) s =
     (if awaiting_mic k s then Some (catch_block k s) else None)"
| "voice_step (SessionOpens sid) s =
     (if session_is sid Connecting s then Some (onopen (set_session sid Opened s)) else None)"
| "voice_step (ConnectResolves k) s =
     (case (if k < length (invocations s) then invocations s ! k else Settled) of
        AwaitSession sid \<Rightarrow>
          if session_is sid Connecting s then None else Some (after_connect k sid s)
      | _ \<Rightarrow> None)"
| "voice_step (ConnectRejects k) s =
     (case (if k < length (invocations s) then invocations s ! k else Settled) of
        AwaitSession sid \<Rightarrow>
          if session_is sid Connecting s
          then Some (catch_block k (set_session sid Closed s)) else None
      | _ \<Rightarrow> None)"
| "voice_step (SessionMessage sid currentTime message) s =
     (if session_is sid Opened s then Some (onmessage currentTime message s) else None)"
| "voice_step (SessionError sid) s =
     (if session_is sid Connecting s \<or> session_is sid Opened s
      then Some (stopVoiceSession (set_session sid Closing s)) else None)"
| "voice_step (SessionCloses sid) s =
     (if session_is sid Closed s \<or> \<not> sid < length (sessions s) then None
      else Some (stopVoiceSession (set_session sid Closed s)))"

fun voice_run :: "voice_event list \<Rightarrow> voice_state \<Rightarrow> voice_state option" where
  "voice_run [] s = Some s"
| "voice_run (e # es) s =
     (case voice_step e s of None \<Rightarrow> None | Some s' \<Rightarrow> voice_run es s')"

definition open_sessions :: "voice_state \<Rightarrow> nat" where
  "open_sessions s = length (filter (\<lambda>st. st = Opened) (sessions s))"

section \<open>Shapes and sample answers used in the statements\<close>







definition text_response :: "string \<Rightarrow> js option \<Rightarrow> response" where
  \<comment> \<open>a response of the given text, with what \<open>JSON.parse\<close> makes of it\<close>
  "text_response t v = \<lparr>candidates = None, responseText = Some t, parsedText = v\<rparr>"

definition image_response :: "string \<Rightarrow> response" where
  \<comment> \<open>a response whose first candidate has one part with inline data\<close>
  "image_response d =
     \<lparr>candidates = Some [\<lparr>parts = Some [\<lparr>inlineData = Some d\<rparr>], groundingChunks = None\<rparr>],
      responseText = None, parsedText = None\<rparr>"

definition service :: "response \<Rightarrow> js_error + response \<Rightarrow> ai_service" where
  \<comment> \<open>a service that answers a request without an image with the first response and a
      request with an image with the second answer\<close>
  "service r img = (\<lambda>req. if image req = None then Inr r else img)"

definition sample_preferences :: design_preferences where
  "sample_preferences =
     \<lparr>projectType = RESIDENTIAL, style = MODERN, floors = 2, budgetRange = Medium,
      materials = [''Glass'', ''Concrete'', ''Timber'']\<rparr>"

definition sample_discovery :: site_discovery where
  "sample_discovery = \<lparr>analysis = ''Flat coastal plot.'', references = []\<rparr>"

definition audio_message :: "string \<Rightarrow> live_message" where
  "audio_message b =
     \<lparr>serverContent = Some \<lparr>modelTurn = Some \<lparr>turnParts = Some [\<lparr>inlineData = Some b\<rparr>]\<rparr>\<rparr>\<rparr>"

section \<open>Invariants used in the statements\<close>




definition gate_holds :: "capture_state \<Rightarrow> bool" where
  "gate_holds s = (phase s = Ready \<longrightarrow> 100 \<le> syncProgress s)"

definition all_ended_by :: "real \<Rightarrow> buffer_source list \<Rightarrow> bool" where
  "all_ended_by t bs = list_all (\<lambda>b. startAt b + bufferDuration b \<le> t) bs"

definition playback_inv :: "voice_state \<Rightarrow> bool" where
  "playback_inv s =
     (0 \<le> nextStartTimeRef s \<and> scheduled_in_order 0 (bufferSources s)
      \<and> all_ended_by (nextStartTimeRef s) (bufferSources s))"

text \<open>
  A run in which the user is patient: a button is pressed only when every earlier call of
  \<open>handleVoiceConsult\<close> has run to its end and no session is still connecting or
  closing. The invariant of such runs: at most one session is not closed, at most one call is
  waiting, a call that waits for the microphone finds every session closed, a call that waits
  for its session finds every other session closed, a connecting session has its call, and
  an open session is marked open and is the stored one or the one its call still waits for.
\<close>

definition settled :: "voice_state \<Rightarrow> bool" where
  "settled s =
     (list_all (\<lambda>i. i = Settled) (invocations s)
      \<and> list_all (\<lambda>st. st = Opened \<or> st = Closed) (sessions s))"

fun is_press :: "voice_event \<Rightarrow> bool" where
  "is_press PressVoice = True"
| "is_press PressTerminate = True"
| "is_press e = False"

fun patient_run :: "voice_event list \<Rightarrow> voice_state \<Rightarrow> voice_state option" where
  "patient_run [] s = Some s"
| "patient_run (e # es) s =
     (if is_press e \<and> \<not> settled s then None
      else (case voice_step e s of None \<Rightarrow> None | Some s' \<Rightarrow> patient_run es s'))"

definition one_live :: "session_status list \<Rightarrow> bool" where
  "one_live ss =
     (\<forall>i j. i < length ss \<and> j < length ss \<and> ss ! i \<noteq> Closed \<and> ss ! j \<noteq> Closed \<longrightarrow> i = j)"

definition one_waiting :: "invocation list \<Rightarrow> bool" where
  "one_waiting is =
     (\<forall>k l. k < length is \<and> l < length is \<and> is ! k \<noteq> Settled \<and> is ! l \<noteq> Settled \<longrightarrow> k = l)"

definition all_closed_but :: "nat option \<Rightarrow> session_status list \<Rightarrow> bool" where
  "all_closed_but r ss = (\<forall>i < length ss. r \<noteq> Some i \<longrightarrow> ss ! i = Closed)"

definition one_at_a_time :: "voice_state \<Rightarrow> bool" where
  "one_at_a_time s =
     (one_live (sessions s) \<and> one_waiting (invocations s)
      \<and> (\<forall>k. awaiting_mic k s \<longrightarrow> all_closed_but None (sessions s))
      \<and> (\<forall>k sid. awaiting_session k sid s \<longrightarrow>
            sid < length (sessions s) \<and> all_closed_but (Some sid) (sessions s))
      \<and> (\<forall>sid. session_is sid Connecting s \<longrightarrow> (\<exists>k. awaiting_session k sid s))
      \<and> (\<forall>sid. session_is sid Opened s \<longrightarrow>
            isVoiceConsultOpen s
            \<and> (liveSessionRef s = Some sid \<or> (\<exists>k. awaiting_session k sid s))))"

section \<open>Properties of \<open>parseBase64\<close>\<close>

lemma strip_prefix_Some: "strip_prefix p s = Some r \<Longrightarrow> s = p @ r"
  by (induction p s rule: strip_prefix.induct) (auto split: if_splits)

lemma strip_prefix_append: "strip_prefix p (p @ r) = Some r"
  by (induction p) auto

text \<open>
  The matcher agrees with the language of the expression: it succeeds exactly on the strings
  \<open>data:\<close> \<open>a\<close> \<open>/\<close> \<open>b\<close> \<open>;base64,\<close> \<open>d\<close> with non-empty \<open>a\<close> of the first class,
  non-empty \<open>b\<close> of the second class and non-empty \<open>d\<close> free of line terminators, and its
  groups are \<open>a/b\<close> and \<open>d\<close>.
\<close>

lemma match_data_uri_sound:
  assumes "match_data_uri s = Some (m, d)"
  shows "\<exists>a b. s = ''data:'' @ a @ ''/'' @ b @ '';base64,'' @ d \<and> m = a @ ''/'' @ b
           \<and> a \<noteq> [] \<and> list_all is_alnum a \<and> b \<noteq> [] \<and> list_all is_subtype_char b
           \<and> d \<noteq> [] \<and> list_all is_dot_char d"
proof -
  from assms obtain r1 where r1: "strip_prefix ''data:'' s = Some r1"
    by (auto simp: match_data_uri_def split: option.splits)
  let ?a = "takeWhile is_alnum r1" and ?r2 = "dropWhile is_alnum r1"
  from assms r1 have a: "?a \<noteq> []"
    by (auto simp: match_data_uri_def Let_def split: option.splits if_splits)
  from assms r1 a obtain r3 where r3: "strip_prefix ''/'' ?r2 = Some r3"
    by (auto simp: match_data_uri_def Let_def split: option.splits if_splits)
  let ?b = "takeWhile is_subtype_char r3" and ?r4 = "dropWhile is_subtype_char r3"
  from assms r1 a r3 have b: "?b \<noteq> []"
    by (auto simp: match_data_uri_def Let_def split: option.splits if_splits)
  from assms r1 a r3 b have d: "strip_prefix '';base64,'' ?r4 = Some d" "d \<noteq> []"
    "list_all is_dot_char d" "m = ?a @ ''/'' @ ?b"
    by (auto simp: match_data_uri_def Let_def split: option.splits if_splits)
  have "s = ''data:'' @ r1" using r1 by (rule strip_prefix_Some)
  also have "r1 = ?a @ ?r2" by simp
  also have "?r2 = ''/'' @ r3" using r3 by (rule strip_prefix_Some)
  also have "r3 = ?b @ ?r4" by simp
  also have "?r4 = '';base64,'' @ d" using d(1) by (rule strip_prefix_Some)
  finally have "s = ''data:'' @ ?a @ ''/'' @ ?b @ '';base64,'' @ d" by simp
  moreover have "list_all is_alnum ?a" "list_all is_subtype_char ?b"
    by (auto simp: list_all_iff dest: set_takeWhileD)
  ultimately show ?thesis using a b d by blast
qed

lemma match_data_uri_complete:
  assumes "a \<noteq> []" "list_all is_alnum a" "b \<noteq> []" "list_all is_subtype_char b"
    "d \<noteq> []" "list_all is_dot_char d"
  shows "match_data_uri (''data:'' @ a @ ''/'' @ b @ '';base64,'' @ d) = Some (a @ ''/'' @ b, d)"
proof -
  have na: "\<not> is_alnum (CHR ''/'')" and nb: "\<not> is_subtype_char (CHR '';'')"
    by (simp_all add: is_alnum_def is_subtype_char_def)
  have 1: "strip_prefix ''data:'' (''data:'' @ a @ ''/'' @ b @ '';base64,'' @ d)
             = Some (a @ ''/'' @ b @ '';base64,'' @ d)"
    by (rule strip_prefix_append)
  have 2: "takeWhile is_alnum (a @ ''/'' @ b @ '';base64,'' @ d) = a"
    "dropWhile is_alnum (a @ ''/'' @ b @ '';base64,'' @ d) = ''/'' @ b @ '';base64,'' @ d"
    using assms(2) na by (simp_all add: list_all_iff takeWhile_append2 dropWhile_append2)
  have 3: "strip_prefix ''/'' (''/'' @ b @ '';base64,'' @ d) = Some (b @ '';base64,'' @ d)"
    by (rule strip_prefix_append)
  have 4: "takeWhile is_subtype_char (b @ '';base64,'' @ d) = b"
    "dropWhile is_subtype_char (b @ '';base64,'' @ d) = '';base64,'' @ d"
    using assms(4) nb by (simp_all add: list_all_iff takeWhile_append2 dropWhile_append2)
  have 5: "strip_prefix '';base64,'' ('';base64,'' @ d) = Some d"
    by (rule strip_prefix_append)
  show ?thesis
    unfolding match_data_uri_def 1 using assms(1,3,5,6)
    by (simp only: option.case Let_def 2 3 4 5 if_False if_True simp_thms)
qed

text \<open>Some inputs and their results.\<close>

lemma parseBase64_examples:
  "parseBase64 ''data:image/png;base64,iVBORw0KGgo='' = \<lparr>mimeType = ''image/png'', data = ''iVBORw0KGgo=''\<rparr>"
  "parseBase64 ''data:image/svg+xml;charset=utf-8,AB,CD'' = \<lparr>mimeType = ''image/svg+xml'', data = ''AB,CD''\<rparr>"
  "parseBase64 ''iVBORw0KGgo='' = \<lparr>mimeType = ''image/jpeg'', data = ''iVBORw0KGgo=''\<rparr>"
  "parseBase64 ''data:image/png;base64,'' = \<lparr>mimeType = ''image/png'', data = []\<rparr>"
  "parseBase64 ''AAAA,BBBB'' = \<lparr>mimeType = ''image/jpeg'', data = ''BBBB''\<rparr>"
  by code_simp+

lemma header_match_nonempty: "header_match s = Some h \<Longrightarrow> h \<noteq> []"
  by (induction s rule: header_match.induct) (auto split: option.splits if_splits simp: Let_def)

lemma clean_no_space: "c \<in> set (clean s) \<Longrightarrow> \<not> is_js_space c"
  by (simp add: clean_def)

lemma set_after_comma: "set (after_comma s) \<subseteq> set s"
proof -
  have "set (tl (dropWhile P s)) \<subseteq> set s" for P
    by (induction s) auto
  then show ?thesis by (simp add: after_comma_def)
qed

lemma match_data_uri_nonempty:
  "match_data_uri s = Some (m, d) \<Longrightarrow> m \<noteq> [] \<and> d \<noteq> []"
  by (auto simp: match_data_uri_def Let_def split: option.splits if_splits)

text \<open>
  C7, as the code has it. For every input that the data-URI expression does not match,
  \<open>parseBase64\<close> returns a non-empty MIME type, which is \<open>image/jpeg\<close> unless a
  \<open>data:\<close> header stands before the first comma, and a payload free of whitespace: the
  stripped input itself when it has no comma, and otherwise what follows its first comma.
  The payload is therefore non-empty only when that text is.
\<close>

theorem parseBase64_without_header:
  assumes "match_data_uri (clean s) = None"
  shows "mimeType (parseBase64 s) \<noteq> [] \<and>
         (\<not> includes_comma (clean s) \<or> header_match (before_comma (clean s)) = None
            \<longrightarrow> mimeType (parseBase64 s) = ''image/jpeg'') \<and>
         data (parseBase64 s) =
           (if includes_comma (clean s) then after_comma (clean s) else clean s) \<and>
         (\<forall>c \<in> set (data (parseBase64 s)). \<not> is_js_space c)"
proof -
  have m: "mimeType (parseBase64 s) \<noteq> []"
    using assms by (auto simp: parseBase64_def Let_def dest: header_match_nonempty split: option.splits)
  have j: "\<not> includes_comma (clean s) \<or> header_match (before_comma (clean s)) = None
            \<longrightarrow> mimeType (parseBase64 s) = ''image/jpeg''"
    using assms by (auto simp: parseBase64_def Let_def)
  have d: "data (parseBase64 s) =
           (if includes_comma (clean s) then after_comma (clean s) else clean s)"
    using assms by (simp add: parseBase64_def Let_def)
  have w: "\<forall>c \<in> set (data (parseBase64 s)). \<not> is_js_space c"
    using set_after_comma [of "clean s"] clean_no_space [of _ s] by (auto simp: d)
  from m j d w show ?thesis by blast
qed

text \<open>The theorem at a bare base64 string with a blank in it.\<close>

theorem parseBase64_without_header_witness:
  "match_data_uri (clean ''iVBOR w0KGgo='') = None \<and>
   parseBase64 ''iVBOR w0KGgo='' = \<lparr>mimeType = ''image/jpeg'', data = ''iVBORw0KGgo=''\<rparr>"
  using parseBase64_without_header [of "''iVBOR w0KGgo=''"]
  by (simp add: parseBase64_def match_data_uri_def clean_def is_js_space_def includes_comma_def)

text \<open>
  C7 as stated fails: the empty string has no data-URI header, and its payload is empty.
\<close>

theorem parseBase64_empty_payload_counterexample:
  "match_data_uri (clean []) = None
   \<and> \<not> (mimeType (parseBase64 []) \<noteq> [] \<and> data (parseBase64 []) \<noteq> [])
   \<and> parseBase64 [] = \<lparr>mimeType = ''image/jpeg'', data = []\<rparr>"
  by (simp add: parseBase64_def match_data_uri_def clean_def includes_comma_def)

section \<open>The round trip of \<open>encode\<close> and \<open>decode\<close>\<close>

text \<open>The test vectors of RFC 4648, and what \<open>atob\<close> forgives and refuses.\<close>

lemma btoa_vectors:
  "btoa '''' = ''''" "btoa ''f'' = ''Zg==''" "btoa ''fo'' = ''Zm8=''" "btoa ''foo'' = ''Zm9v''"
  "btoa ''foob'' = ''Zm9vYg==''" "btoa ''fooba'' = ''Zm9vYmE=''" "btoa ''foobar'' = ''Zm9vYmFy''"
  by code_simp+

lemma atob_vectors:
  "atob '''' = Some ''''" "atob ''Zg=='' = Some ''f''" "atob ''Zm8='' = Some ''fo''"
  "atob ''Zm9v'' = Some ''foo''" "atob ''Zm9vYg=='' = Some ''foob''"
  "atob ''Zm9vYmE='' = Some ''fooba''" "atob ''Zm9vYmFy'' = Some ''foobar''"
  "atob ''Zm9v Ym Fy'' = Some ''foobar''" "atob ''Zg'' = Some ''f''"
  "atob ''Zg='' = None" "atob ''Z'' = None" "atob ''Zm9v!'' = None" "atob ''Zg===='' = None"
  by code_simp+

lemma encode_loop_eq:
  "encode_loop bytes i binary = binary @ map (\<lambda>b. char_of (unat b)) (drop i bytes)"
proof (induction bytes i binary rule: encode_loop.induct)
  case (1 bytes i binary)
  show ?case
  proof (cases "i < length bytes")
    case True
    then have "drop i bytes = bytes ! i # drop (Suc i) bytes"
      by (simp add: Cons_nth_drop_Suc)
    with True "1" show ?thesis by (simp del: encode_loop.simps add: encode_loop.simps [of bytes i])
  next
    case False
    then show ?thesis by simp
  qed
qed

lemma decode_loop_eq:
  "length bytes = length s \<Longrightarrow>
   decode_loop s i bytes = take i bytes @ map (\<lambda>c. of_nat (of_char c)) (drop i s)"
proof (induction s i bytes rule: decode_loop.induct)
  case (1 s i bytes)
  show ?case
  proof (cases "i < length s")
    case True
    then have d: "drop i s = s ! i # drop (Suc i) s"
      by (simp add: Cons_nth_drop_Suc)
    have "decode_loop s i bytes = decode_loop s (i + 1) (bytes[i := of_nat (of_char (s ! i))])"
      using True by (simp del: decode_loop.simps add: decode_loop.simps [of s i])
    also have "\<dots> = take (i + 1) (bytes[i := of_nat (of_char (s ! i))])
                 @ map (\<lambda>c. of_nat (of_char c)) (drop (i + 1) s)"
      using "1.IH" [OF True] "1.prems" by simp
    also have "take (i + 1) (bytes[i := of_nat (of_char (s ! i))])
                 = take i bytes @ [of_nat (of_char (s ! i))]"
      using True "1.prems" by (simp add: take_Suc_conv_app_nth)
    finally show ?thesis using d by simp
  next
    case False
    with "1.prems" show ?thesis by simp
  qed
qed

lemma b64_index_char: "i < 64 \<Longrightarrow> b64_index (b64_char i) = Some i"
  by (auto simp: b64_index_def b64_char_def Let_def)

lemma b64_index_pad: "b64_index (CHR ''='') = None"
  by (simp add: b64_index_def)

lemma b64_index_ws: "is_ascii_whitespace c \<Longrightarrow> b64_index c = None"
  by (auto simp: b64_index_def is_ascii_whitespace_def Let_def)

lemma b64_char_not_pad: "i < 64 \<Longrightarrow> b64_char i \<noteq> CHR ''=''"
  using b64_index_char [of i] b64_index_pad by auto

lemma b64_char_not_ws: "i < 64 \<Longrightarrow> \<not> is_ascii_whitespace (b64_char i)"
  using b64_index_char [of i] b64_index_ws [of "b64_char i"] by auto

lemma sextet_bounds:
  fixes a b c :: nat
  assumes "a < 256" "b < 256" "c < 256"
  shows "a div 4 < 64" and "(a mod 4) * 16 + b div 16 < 64"
    and "(b mod 16) * 4 + c div 64 < 64"
    and "c mod 64 < 64" and "(a mod 4) * 16 < 64" and "(b mod 16) * 4 < 64"
  using assms by arith+

lemma btoa_chars: "c \<in> set (btoa s) \<Longrightarrow> c = CHR ''='' \<or> (\<exists>i<64. c = b64_char i)"
proof (induction s rule: btoa.induct)
  case (1 x y z rest)
  note b = sextet_bounds [OF nat_of_char_less_256 [of x] nat_of_char_less_256 [of y] nat_of_char_less_256 [of z]]
  from "1.prems" consider "c = b64_char (of_char x div 4)"
    | "c = b64_char ((of_char x mod 4) * 16 + of_char y div 16)"
    | "c = b64_char ((of_char y mod 16) * 4 + of_char z div 64)"
    | "c = b64_char (of_char z mod 64)" | "c \<in> set (btoa rest)"
    by (auto simp: Let_def)
  then show ?case using b "1.IH" by cases blast+
next
  case (2 x y)
  note b = sextet_bounds [OF nat_of_char_less_256 [of x] nat_of_char_less_256 [of y] nat_of_char_less_256 [of y]]
  from "2.prems" consider "c = b64_char (of_char x div 4)"
    | "c = b64_char ((of_char x mod 4) * 16 + of_char y div 16)"
    | "c = b64_char ((of_char y mod 16) * 4)" | "c = CHR ''=''"
    by (auto simp: Let_def)
  then show ?case using b by cases blast+
next
  case (3 x)
  note b = sextet_bounds [OF nat_of_char_less_256 [of x] nat_of_char_less_256 [of x] nat_of_char_less_256 [of x]]
  from "3.prems" consider "c = b64_char (of_char x div 4)"
    | "c = b64_char ((of_char x mod 4) * 16)" | "c = CHR ''=''"
    by (auto simp: Let_def)
  then show ?case using b by cases blast+
next
  case 4
  then show ?case by simp
qed

lemma btoa_no_ws: "filter (\<lambda>c. \<not> is_ascii_whitespace c) (btoa s) = btoa s"
proof -
  have "\<not> is_ascii_whitespace (CHR ''='')" by (simp add: is_ascii_whitespace_def)
  then have "\<forall>c \<in> set (btoa s). \<not> is_ascii_whitespace c"
    using btoa_chars b64_char_not_ws by blast
  then show ?thesis by (simp add: filter_id_conv)
qed

lemma length_btoa: "length (btoa s) mod 4 = 0"
  by (induction s rule: btoa.induct) (simp_all add: Let_def)

lemma strip_padding_append:
  assumes "length g = 4" "last g \<noteq> CHR ''=''" "length t mod 4 = 0"
  shows "strip_padding (g @ t) = g @ strip_padding t"
proof (cases "t = []")
  case True
  with assms show ?thesis by (auto simp: strip_padding_def)
next
  case False
  then have "length t \<noteq> 0" by simp
  with assms(3) have "4 \<le> length t" by presburger
  then have "butlast t \<noteq> []" by (cases t) auto
  with False assms show ?thesis
    by (simp add: strip_padding_def butlast_append)
qed

lemma split_join: "(r::nat) < n \<Longrightarrow> (q * n + r) div n = q \<and> (q * n + r) mod n = r"
  by simp

lemma sextet_join:
  fixes a b c :: nat
  assumes "a < 256" "b < 256" "c < 256"
  shows "(a div 4) * 4 + ((a mod 4) * 16 + b div 16) div 16 = a"
    and "(((a mod 4) * 16 + b div 16) mod 16) * 16 + ((b mod 16) * 4 + c div 64) div 4 = b"
    and "(((b mod 16) * 4 + c div 64) mod 4) * 64 + c mod 64 = c"
    and "(((a mod 4) * 16 + b div 16) mod 16) * 16 + ((b mod 16) * 4) div 4 = b"
    and "(a div 4) * 4 + ((a mod 4) * 16) div 16 = a"
proof -
  have hb: "b div 16 < 16" and hc: "c div 64 < 4"
    using assms by simp_all
  note s1 = split_join [OF hb, of "a mod 4"] and s2 = split_join [OF hc, of "b mod 16"]
  show "(a div 4) * 4 + ((a mod 4) * 16 + b div 16) div 16 = a"
    by (simp only: s1 div_mult_mod_eq)
  show "(((a mod 4) * 16 + b div 16) mod 16) * 16 + ((b mod 16) * 4 + c div 64) div 4 = b"
    by (simp only: s1 s2 div_mult_mod_eq)
  show "(((b mod 16) * 4 + c div 64) mod 4) * 64 + c mod 64 = c"
    by (simp only: s2 div_mult_mod_eq)
  show "(((a mod 4) * 16 + b div 16) mod 16) * 16 + ((b mod 16) * 4) div 4 = b"
    using hb by simp
  show "(a div 4) * 4 + ((a mod 4) * 16) div 16 = a"
    by simp
qed

lemma atob_body:
  "\<exists>v. those (map b64_index (strip_padding (btoa s))) = Some v \<and> b64_groups v = s
       \<and> length (strip_padding (btoa s)) mod 4 \<noteq> 1"
proof (induction s rule: btoa.induct)
  case (1 x y z rest)
  let ?a = "of_char x :: nat" and ?b = "of_char y :: nat" and ?c = "of_char z :: nat"
  let ?g = "[b64_char (?a div 4), b64_char ((?a mod 4) * 16 + ?b div 16),
             b64_char ((?b mod 16) * 4 + ?c div 64), b64_char (?c mod 64)]"
  note b = sextet_bounds [OF nat_of_char_less_256 [of x] nat_of_char_less_256 [of y] nat_of_char_less_256 [of z]]
  note j = sextet_join [OF nat_of_char_less_256 [of x] nat_of_char_less_256 [of y] nat_of_char_less_256 [of z]]
  from "1.IH" obtain v where v: "those (map b64_index (strip_padding (btoa rest))) = Some v"
    "b64_groups v = rest" "length (strip_padding (btoa rest)) mod 4 \<noteq> 1" by blast
  have e: "btoa (x # y # z # rest) = ?g @ btoa rest" by (simp add: Let_def)
  have "last ?g \<noteq> CHR ''=''" using b(4) b64_char_not_pad by simp
  then have s: "strip_padding (btoa (x # y # z # rest)) = ?g @ strip_padding (btoa rest)"
    unfolding e by (intro strip_padding_append) (simp_all add: length_btoa)
  have t: "those (map b64_index (?g @ strip_padding (btoa rest)))
           = Some ([?a div 4, (?a mod 4) * 16 + ?b div 16, (?b mod 16) * 4 + ?c div 64, ?c mod 64] @ v)"
    using v(1) b by (simp add: b64_index_char)
  have g: "b64_groups ([?a div 4, (?a mod 4) * 16 + ?b div 16, (?b mod 16) * 4 + ?c div 64, ?c mod 64] @ v)
           = x # y # z # rest"
    using v(2) j by simp
  have l: "length (?g @ strip_padding (btoa rest)) mod 4 \<noteq> 1"
    using v(3) by simp
  from s t g l show ?case by metis
next
  case (2 x y)
  note b = sextet_bounds [OF nat_of_char_less_256 [of x] nat_of_char_less_256 [of y] nat_of_char_less_256 [of y]]
  note j = sextet_join [OF nat_of_char_less_256 [of x] nat_of_char_less_256 [of y] nat_of_char_less_256 [of y]]
  have s: "strip_padding (btoa [x, y]) =
     [b64_char (of_char x div 4), b64_char ((of_char x mod 4) * 16 + of_char y div 16),
      b64_char ((of_char y mod 16) * 4)]"
    using b(6) b64_char_not_pad by (simp add: strip_padding_def Let_def)
  show ?case unfolding s using b j by (simp add: b64_index_char)
next
  case (3 x)
  note b = sextet_bounds [OF nat_of_char_less_256 [of x] nat_of_char_less_256 [of x] nat_of_char_less_256 [of x]]
  note j = sextet_join [OF nat_of_char_less_256 [of x] nat_of_char_less_256 [of x] nat_of_char_less_256 [of x]]
  have s: "strip_padding (btoa [x]) =
     [b64_char (of_char x div 4), b64_char ((of_char x mod 4) * 16)]"
    by (simp add: strip_padding_def Let_def)
  show ?case unfolding s using b j by (simp add: b64_index_char)
next
  case 4
  then show ?case by (simp add: strip_padding_def)
qed

lemma atob_btoa: "atob (btoa s) = Some s"
  using atob_body [of s] by (auto simp: atob_def btoa_no_ws Let_def)

text \<open>
  C10. Decoding the encoding of a byte array gives the byte array back: \<open>decode\<close> does not
  throw on what \<open>encode\<close> produces, and the bytes are equal.
\<close>

theorem decode_encode: "decode (encode bytes) = Inr bytes"
proof -
  have "decode (encode bytes) =
        Inr (map (\<lambda>c. of_nat (of_char c)) (map (\<lambda>b. char_of (unat b)) bytes))"
    by (simp add: decode_def encode_def encode_loop_eq atob_btoa decode_loop_eq
             del: encode_loop.simps decode_loop.simps)
  also have "map (\<lambda>c. of_nat (of_char c)) (map (\<lambda>b. char_of (unat b)) bytes) = bytes"
  proof -
    have "(of_nat (of_char (char_of (unat b) :: char) :: nat) :: byte) = b" for b :: byte
    proof -
      have "unat b < 256" using unsigned_less [of b] by simp
      then show ?thesis by simp
    qed
    then show ?thesis by (simp add: map_idI)
  qed
  finally show ?thesis .
qed

section \<open>Concept synthesis\<close>















text \<open>
  C3, on the code. On an image whose parsed payload is empty, \<open>analyzeSite\<close> throws before
  any request, while \<open>promptEditImage\<close> and \<open>generateDesignConcept\<close> go on to issue
  requests.
\<close>

theorem empty_payload_requests:
  assumes "data (parseBase64 img) = []"
  shows "analyzeSite ai img = ([], Inl (Error ''Invalid image data''))
         \<and> fst (promptEditImage ai img prompt) \<noteq> []
         \<and> fst (generateDesignConcept ai randomId now img prefs discovery) \<noteq> []"
  using assms
  by (auto simp: analyzeSite_def promptEditImage_def generateDesignConcept_def Let_def
           split: sum.splits prod.splits)

text \<open>The theorem at the empty image string.\<close>

theorem empty_payload_requests_witness:
  \<open>data (parseBase64 []) = []
   \<and> analyzeSite (service (text_response ''{}'' (Some (JObj []))) (Inr (image_response ''QUJD''))) []
       = ([], Inl (Error ''Invalid image data''))
   \<and> fst (promptEditImage (service (text_response ''{}'' (Some (JObj []))) (Inr (image_response ''QUJD'')))
            [] ''a glass tower'')
       = [\<lparr>model = ''gemini-2.5-flash-image'',
           image = Some \<lparr>mimeType = ''image/jpeg'', data = []\<rparr>, aspectRatio = None\<rparr>]
   \<and> fst (generateDesignConcept (service (text_response ''{}'' (Some (JObj []))) (Inr (image_response ''QUJD'')))
            ''k3j9x0a1b'' ''2025-01-01T00:00:00.000Z'' [] sample_preferences sample_discovery)
       = [concept_request,
          exterior_request \<lparr>mimeType = ''image/jpeg'', data = []\<rparr>,
          plan_request \<lparr>mimeType = ''image/jpeg'', data = []\<rparr>]\<close>
proof -
  have p: "parseBase64 [] = \<lparr>mimeType = ''image/jpeg'', data = []\<rparr>"
    by (simp add: parseBase64_def clean_def match_data_uri_def includes_comma_def)
  show ?thesis
    using empty_payload_requests
      [of "[]" "service (text_response ''{}'' (Some (JObj []))) (Inr (image_response ''QUJD''))"]
    by (simp add: p promptEditImage_def generateDesignConcept_def service_def
          concept_request_def exterior_request_def plan_request_def text_response_def
          image_response_def designData_def finalizedDesignData_def field_or_def js_or_def
          image_results_def extractImage_def default_name_def default_description_def
          default_floorPlanJson_def default_costs_def Let_def)
qed
section \<open>The orchestrator reaches synthesis only after a discovery\<close>























text \<open>
  Two discoveries that overlap. The second capture is made while the first call of
  \<open>analyzeSite\<close> is awaited, and the second call returns first. The page ends at step 1 with
  the second image and the discovery of the first: the stored discovery is the result of the
  call that returned last, whichever image is stored.
\<close>

lemma overlapping_discoveries:
  "map_option (\<lambda>u. (step (page u), uploadedImage (page u), siteDiscovery (page u)))
     (app_run
        [StartDiscovery (service (text_response ''{}'' (Some (JObj [])))
                           (Inr (text_response ''Sloped site.'' None))) ''AAAA'',
         StartDiscovery (service (text_response ''{}'' (Some (JObj [])))
                           (Inr (text_response ''Flat coastal plot.'' None))) ''BBBB'',
         DiscoveryReturns 1, DiscoveryReturns 0]
        initial_orchestrator)
   = Some (1, Some ''BBBB'', Some \<lparr>analysis = ''Sloped site.'', references = []\<rparr>)"
proof -
  have p: "parseBase64 ''AAAA'' = \<lparr>mimeType = ''image/jpeg'', data = ''AAAA''\<rparr>"
    "parseBase64 ''BBBB'' = \<lparr>mimeType = ''image/jpeg'', data = ''BBBB''\<rparr>"
    by (simp_all add: parseBase64_def clean_def match_data_uri_def includes_comma_def
        is_js_space_def)
  show ?thesis
    by (simp add: startDiscovery_def startDiscovery_resumed_def discovery_result_def
        analyzeSite_def p service_def text_response_def str_or_def sources_def
        initial_orchestrator_def initial_app_def)
qed

section \<open>The capture gate and the readiness value\<close>

lemma next_progress_ge: "100 \<le> v \<Longrightarrow> 100 \<le> next_progress r v"
  by (simp add: next_progress_def)

lemma capture_step_gate:
  "capture_step e s = Some s' \<Longrightarrow> gate_holds s \<Longrightarrow> gate_holds s'"
  by (cases e) (auto simp: gate_holds_def set_point_enabled_def capture_available_def
                     split: if_splits)

lemma capture_run_gate:
  "capture_run evs s = Some s' \<Longrightarrow> gate_holds s \<Longrightarrow> gate_holds s'"
proof (induction evs arbitrary: s)
  case Nil
  then show ?case by simp
next
  case (Cons e evs)
  then show ?case by (auto split: option.splits dest: capture_step_gate)
qed

lemma next_progress_below: "v < 100 \<Longrightarrow> v \<le> next_progress r v"
  by (simp add: next_progress_def)

lemma next_progress_at_100: "next_progress r 100 = 100"
  by (simp add: next_progress_def)

text \<open>
  C8. In every state that the capture flow reaches from its initial state, the capture
  control is there only with a readiness value of at least 100: it is never there while the
  phase is aligning, a frame can be captured only at 100 or more, and the step from aligning
  to ready is enabled only at 100 or more.
\<close>

theorem capture_gate:
  assumes "capture_run evs initial_capture = Some s"
  shows "(capture_available s \<longrightarrow> 100 \<le> syncProgress s)
       \<and> (phase s = Aligning \<longrightarrow> \<not> capture_available s)
       \<and> (set_point_enabled s \<longrightarrow> 100 \<le> syncProgress s)
       \<and> (capture_step CaptureFrame s \<noteq> None \<longrightarrow> 100 \<le> syncProgress s)
       \<and> (capture_step SetPoint s \<noteq> None \<longrightarrow> phase s = Aligning \<and> 100 \<le> syncProgress s)"
proof -
  have "gate_holds initial_capture" by (simp add: gate_holds_def initial_capture_def)
  with assms have g: "gate_holds s" by (rule capture_run_gate)
  have r: "phase s \<noteq> Aligning \<Longrightarrow> phase s = Ready" by (cases "phase s") auto
  from g r show ?thesis
    by (auto simp: gate_holds_def capture_available_def set_point_enabled_def)
qed

text \<open>
  The theorem at a run of eight ticks of 14 and Set Point, which ends ready at 112; after
  seven ticks, at 98, Set Point cannot be pressed.
\<close>

theorem capture_gate_witness:
  "capture_run [Tick 14, Tick 14, Tick 14, Tick 14, Tick 14, Tick 14, Tick 14, Tick 14, SetPoint]
     initial_capture
     = Some \<lparr>phase = Ready, syncProgress = 112, captureError = None, facingMode = Environment\<rparr>
   \<and> capture_available
       \<lparr>phase = Ready, syncProgress = 112, captureError = None, facingMode = Environment\<rparr>
   \<and> capture_run [Tick 14, Tick 14, Tick 14, Tick 14, Tick 14, Tick 14, Tick 14, SetPoint]
        initial_capture = None"
  using capture_gate [of "[Tick 14, Tick 14, Tick 14, Tick 14, Tick 14, Tick 14, Tick 14, Tick 14, SetPoint]"
      "\<lparr>phase = Ready, syncProgress = 112, captureError = None, facingMode = Environment\<rparr>"]
  by (simp add: initial_capture_def next_progress_def set_point_enabled_def capture_available_def)

text \<open>
  C9, on the code. Eight ticks of 14 take the readiness value from 0 to 112, past 100, and
  the ninth tick sets it back to 100: after it has reached 100 the value still changes, and
  it falls.
\<close>

theorem progress_overshoot:
  "progress_run [14, 14, 14, 14, 14, 14, 14, 14] 0 = 112
   \<and> progress_run [14, 14, 14, 14, 14, 14, 14, 14, 14] 0 = 100
   \<and> capture_run [Tick 14, Tick 14, Tick 14, Tick 14, Tick 14, Tick 14, Tick 14, Tick 14] initial_capture
       = Some \<lparr>phase = Aligning, syncProgress = 112, captureError = None, facingMode = Environment\<rparr>
   \<and> capture_step (Tick 0)
        \<lparr>phase = Aligning, syncProgress = 112, captureError = None, facingMode = Environment\<rparr>
       = Some \<lparr>phase = Aligning, syncProgress = 100, captureError = None, facingMode = Environment\<rparr>"
  by (simp add: next_progress_def initial_capture_def)

section \<open>Playback is scheduled in order\<close>

lemma scheduled_snoc:
  "scheduled_in_order e bs \<Longrightarrow> all_ended_by (startAt b) bs \<Longrightarrow> e \<le> startAt b \<Longrightarrow>
   sampledClock b \<le> startAt b \<Longrightarrow> 0 \<le> bufferDuration b \<Longrightarrow>
   scheduled_in_order e (bs @ [b])"
  by (induction bs arbitrary: e) (auto simp: all_ended_by_def)

lemma all_ended_by_mono: "all_ended_by t bs \<Longrightarrow> t \<le> t' \<Longrightarrow> all_ended_by t' bs"
  by (induction bs) (auto simp: all_ended_by_def)

lemma duration_nonneg: "0 \<le> duration b"
  by (simp add: duration_def)

lemma onmessage_mono: "nextStartTimeRef s \<le> nextStartTimeRef (onmessage t m s)"
  using duration_nonneg
  by (auto simp: onmessage_def Let_def add_increasing2 max.coboundedI1
           split: sum.splits option.splits)

lemma onmessage_inv: "playback_inv s \<Longrightarrow> playback_inv (onmessage t m s)"
proof -
  assume inv: "playback_inv s"
  let ?t = "max (nextStartTimeRef s) t"
  have a: "all_ended_by ?t (bufferSources s)"
    using inv all_ended_by_mono by (auto simp: playback_inv_def)
  have k: "playback_inv (s\<lparr>nextStartTimeRef := ?t\<rparr>)"
    using inv a by (auto simp: playback_inv_def)
  have n: "playback_inv
       (s\<lparr>nextStartTimeRef := ?t,
          bufferSources := bufferSources s @
            [\<lparr>sampledClock = t, startAt = ?t, bufferDuration = duration ab, stopped = False\<rparr>],
          nextStartTimeRef := ?t + duration ab,
          audioSourcesRef := audioSourcesRef s @ [length (bufferSources s)]\<rparr>)" for ab
  proof -
    let ?b = "\<lparr>sampledClock = t, startAt = ?t, bufferDuration = duration ab, stopped = False\<rparr>"
    have 1: "scheduled_in_order 0 (bufferSources s @ [?b])"
      using inv a duration_nonneg [of ab]
      by (intro scheduled_snoc) (auto simp: playback_inv_def)
    have 2: "all_ended_by (?t + duration ab) (bufferSources s @ [?b])"
      using all_ended_by_mono [OF a, of "?t + duration ab"] duration_nonneg [of ab]
      by (simp add: all_ended_by_def)
    have 3: "0 \<le> ?t + duration ab"
      using inv duration_nonneg [of ab] by (auto simp: playback_inv_def)
    from 1 2 3 show ?thesis by (simp add: playback_inv_def)
  qed
  show ?thesis
    using inv k n
    by (auto simp: onmessage_def Let_def split: sum.splits option.splits)
qed

lemma handle_messages_inv: "playback_inv s \<Longrightarrow> playback_inv (handle_messages ms s)"
  by (induction ms arbitrary: s) (auto simp: onmessage_inv)

lemma handle_messages_mono: "nextStartTimeRef s \<le> nextStartTimeRef (handle_messages ms s)"
proof (induction ms arbitrary: s)
  case Nil
  then show ?case by simp
next
  case (Cons a ms)
  obtain t m where a: "a = (t, m)" by (cases a)
  show ?case using Cons [of "onmessage t m s"] onmessage_mono [of s t m] by (simp add: a)
qed

lemma stop_sources_times:
  "map (\<lambda>b. (sampledClock b, startAt b, bufferDuration b)) (stop_sources ids bs)
     = map (\<lambda>b. (sampledClock b, startAt b, bufferDuration b)) bs"
proof -
  have "map (\<lambda>b. (sampledClock b, startAt b, bufferDuration b))
          (fold (\<lambda>i acc. acc[i := (acc ! i)\<lparr>stopped := True\<rparr>]) ids bs)
        = map (\<lambda>b. (sampledClock b, startAt b, bufferDuration b)) bs"
  proof (induction ids arbitrary: bs)
    case Nil
    then show ?case by simp
  next
    case (Cons i ids)
    have "map (\<lambda>b. (sampledClock b, startAt b, bufferDuration b)) (bs[i := (bs ! i)\<lparr>stopped := True\<rparr>])
          = map (\<lambda>b. (sampledClock b, startAt b, bufferDuration b)) bs"
    proof (cases "i < length bs")
      case True
      then show ?thesis by (simp add: map_update list_update_same_conv)
    next
      case False
      then have "length bs \<le> i" by simp
      then have "bs[i := (bs ! i)\<lparr>stopped := True\<rparr>] = bs" by (rule list_update_beyond)
      then show ?thesis by simp
    qed
    with Cons [of "bs[i := (bs ! i)\<lparr>stopped := True\<rparr>]"] show ?case by simp
  qed
  then show ?thesis by (simp add: stop_sources_def)
qed

lemma scheduled_times:
  "map (\<lambda>b. (sampledClock b, startAt b, bufferDuration b)) bs
     = map (\<lambda>b. (sampledClock b, startAt b, bufferDuration b)) bs'
   \<Longrightarrow> scheduled_in_order e bs = scheduled_in_order e bs'"
proof (induction bs arbitrary: bs' e)
  case Nil
  then show ?case by simp
next
  case (Cons b bs)
  then obtain c cs where c: "bs' = c # cs" by (cases bs') auto
  with Cons.prems have "sampledClock b = sampledClock c" "startAt b = startAt c"
    "bufferDuration b = bufferDuration c"
    "map (\<lambda>b. (sampledClock b, startAt b, bufferDuration b)) bs
       = map (\<lambda>b. (sampledClock b, startAt b, bufferDuration b)) cs"
    by simp_all
  with Cons.IH [of cs] c show ?case by simp
qed

lemma ended_times:
  "map (\<lambda>b. (sampledClock b, startAt b, bufferDuration b)) bs
     = map (\<lambda>b. (sampledClock b, startAt b, bufferDuration b)) bs'
   \<Longrightarrow> all_ended_by t bs = all_ended_by t bs'"
proof (induction bs arbitrary: bs')
  case Nil
  then show ?case by (simp add: all_ended_by_def)
next
  case (Cons b bs)
  then obtain c cs where c: "bs' = c # cs" by (cases bs') auto
  with Cons.prems have "startAt b = startAt c" "bufferDuration b = bufferDuration c"
    "map (\<lambda>b. (sampledClock b, startAt b, bufferDuration b)) bs
       = map (\<lambda>b. (sampledClock b, startAt b, bufferDuration b)) cs"
    by simp_all
  with Cons.IH [of cs] c show ?case by (simp add: all_ended_by_def)
qed

lemma stopVoiceSession_inv: "playback_inv s \<Longrightarrow> playback_inv (stopVoiceSession s)"
  using scheduled_times [OF stop_sources_times, of 0 "audioSourcesRef s" "bufferSources s"]
    ended_times [OF stop_sources_times, of "nextStartTimeRef s" "audioSourcesRef s" "bufferSources s"]
  by (simp add: playback_inv_def stopVoiceSession_def)

lemma playback_inv_cong:
  "nextStartTimeRef s' = nextStartTimeRef s \<Longrightarrow> bufferSources s' = bufferSources s \<Longrightarrow>
   playback_inv s \<Longrightarrow> playback_inv s'"
  by (simp add: playback_inv_def)

lemma voice_step_inv:
  assumes "voice_step e s = Some s'" "playback_inv s"
  shows "playback_inv s'"
proof (cases e)
  case PressVoice
  with assms show ?thesis
    by (auto simp: handleVoiceConsult_def stopVoiceSession_inv split: if_splits
             intro: playback_inv_cong [of _ s])
next
  case PressTerminate
  with assms show ?thesis by (auto simp: stopVoiceSession_inv split: if_splits)
next
  case (MicGranted k)
  with assms show ?thesis
    by (auto simp: after_microphone_def split: if_splits intro: playback_inv_cong [of _ s])
next
  case (MicDenied k)
  have "playback_inv (s\<lparr>isConnecting := False, invocations := (invocations s)[k := Settled]\<rparr>)"
    using assms(2) by (rule playback_inv_cong [rotated 2]) simp_all
  with MicDenied assms show ?thesis
    by (auto simp: catch_block_def stopVoiceSession_inv split: if_splits)
next
  case (SessionOpens sid)
  with assms show ?thesis
    by (auto simp: onopen_def set_session_def split: if_splits intro: playback_inv_cong [of _ s])
next
  case (ConnectResolves k)
  with assms show ?thesis
    by (auto simp: after_connect_def split: if_splits invocation.splits
             intro: playback_inv_cong [of _ s])
next
  case (ConnectRejects k)
  have "playback_inv ((set_session sid Closed s)\<lparr>isConnecting := False,
           invocations := (invocations (set_session sid Closed s))[k := Settled]\<rparr>)" for sid
    using assms(2) by (rule playback_inv_cong [rotated 2]) (simp_all add: set_session_def)
  with ConnectRejects assms show ?thesis
    by (auto simp: catch_block_def stopVoiceSession_inv split: if_splits invocation.splits)
next
  case (SessionMessage sid t m)
  with assms show ?thesis by (auto simp: onmessage_inv split: if_splits)
next
  case (SessionError sid)
  have "playback_inv (set_session sid Closing s)"
    using assms(2) by (rule playback_inv_cong [rotated 2]) (simp_all add: set_session_def)
  with SessionError assms show ?thesis by (auto simp: stopVoiceSession_inv split: if_splits)
next
  case (SessionCloses sid)
  have "playback_inv (set_session sid Closed s)"
    using assms(2) by (rule playback_inv_cong [rotated 2]) (simp_all add: set_session_def)
  with SessionCloses assms show ?thesis by (auto simp: stopVoiceSession_inv split: if_splits)
qed

lemma voice_run_inv:
  "voice_run evs s = Some s' \<Longrightarrow> playback_inv s \<Longrightarrow> playback_inv s'"
proof (induction evs arbitrary: s)
  case Nil
  then show ?case by simp
next
  case (Cons e evs)
  then show ?case by (auto split: option.splits dest: voice_step_inv)
qed

lemma initial_voice_inv: "playback_inv initial_voice"
  by (simp add: playback_inv_def initial_voice_def all_ended_by_def)

text \<open>
  C5. From every state that the voice session reaches, and for every sequence of messages it
  then handles, each buffer source is started at or after the end of the source scheduled
  before it and at or after the clock value read for it, no duration is negative, every
  source ends at or before the next start time, and the next start time does not decrease.
\<close>

theorem playback_in_order:
  assumes "voice_run evs initial_voice = Some s"
  shows "scheduled_in_order 0 (bufferSources (handle_messages ms s))
       \<and> all_ended_by (nextStartTimeRef (handle_messages ms s)) (bufferSources (handle_messages ms s))
       \<and> nextStartTimeRef s \<le> nextStartTimeRef (handle_messages ms s)"
proof -
  have "playback_inv s" using assms initial_voice_inv by (rule voice_run_inv)
  then have "playback_inv (handle_messages ms s)" by (rule handle_messages_inv)
  then show ?thesis using handle_messages_mono [of s ms] by (simp add: playback_inv_def)
qed

text \<open>
  The theorem at an opened session that handles two chunks of three frames, both at clock
  0.5: the second starts where the first ends.
\<close>

theorem playback_in_order_witness:
  "voice_run [PressVoice, MicGranted 0, SessionOpens 0, ConnectResolves 0] initial_voice
     = Some (initial_voice\<lparr>isVoiceConsultOpen := True, liveSessionRef := Some 0,
          micStreamRef := Some 0, inputAudioCtxRef := Some 0, outputAudioCtxRef := Some 1,
          sessions := [Opened], micLive := [True], contextOpen := [True, True],
          invocations := [Settled]\<rparr>)
   \<and> map (\<lambda>b. (startAt b, bufferDuration b))
        (bufferSources (handle_messages
           [(1 / 2, audio_message ''AAAAAAAA''), (1 / 2, audio_message ''AAAAAAAA'')]
           (initial_voice\<lparr>isVoiceConsultOpen := True, liveSessionRef := Some 0,
              micStreamRef := Some 0, inputAudioCtxRef := Some 0, outputAudioCtxRef := Some 1,
              sessions := [Opened], micLive := [True], contextOpen := [True, True],
              invocations := [Settled]\<rparr>)))
       = [(1 / 2, 1 / 8000), (4001 / 8000, 1 / 8000)]"
proof -
  let ?s = "initial_voice\<lparr>isVoiceConsultOpen := True, liveSessionRef := Some 0,
          micStreamRef := Some 0, inputAudioCtxRef := Some 0, outputAudioCtxRef := Some 1,
          sessions := [Opened], micLive := [True], contextOpen := [True, True],
          invocations := [Settled]\<rparr>"
  have r: "voice_run [PressVoice, MicGranted 0, SessionOpens 0, ConnectResolves 0] initial_voice = Some ?s"
    by (simp add: initial_voice_def handleVoiceConsult_def awaiting_mic_def after_microphone_def
          session_is_def set_session_def onopen_def after_connect_def)
  have d: "decode ''AAAAAAAA'' = Inr [0, 0, 0, 0, 0, 0]"
    by (simp add: decode_def atob_def is_ascii_whitespace_def strip_padding_def b64_index_def
          decode_loop_eq Let_def del: decode_loop.simps)
  have m: "map (\<lambda>b. (startAt b, bufferDuration b))
        (bufferSources (handle_messages
           [(1 / 2, audio_message ''AAAAAAAA''), (1 / 2, audio_message ''AAAAAAAA'')] ?s))
       = [(1 / 2, 1 / 8000), (4001 / 8000, 1 / 8000)]"
    by (simp add: onmessage_def base64Audio_def audio_message_def d decodeAudioData_def
          duration_def initial_voice_def Let_def)
  show ?thesis
    using playback_in_order [OF r, of "[(1 / 2, audio_message ''AAAAAAAA''), (1 / 2, audio_message ''AAAAAAAA'')]"]
      r m by simp
qed

section \<open>One voice session at a time\<close>

text \<open>
  What the guard of \<open>handleVoiceConsult\<close> does: with a session marked open or connecting,
  the call is \<open>stopVoiceSession\<close> and starts nothing. \<open>stopVoiceSession\<close> closes the
  session, the stream and the two contexts that the references hold, stops and forgets the
  buffer sources, and clears both flags.
\<close>

lemma handleVoiceConsult_toggles:
  assumes "isVoiceConsultOpen s \<or> isConnecting s"
  shows "handleVoiceConsult s = stopVoiceSession s"
    and "invocations (handleVoiceConsult s) = invocations s"
    and "length (sessions (handleVoiceConsult s)) = length (sessions s)"
  using assms
  by (simp_all add: handleVoiceConsult_def stopVoiceSession_def close_session_def
        split: option.splits)

lemma stays_off: "\<not> xs ! j \<Longrightarrow> \<not> (xs[i := False]) ! j"
  by (cases "i < length xs") (auto simp: nth_list_update list_update_beyond not_less)

lemma stopVoiceSession_effect:
  "\<not> isVoiceConsultOpen (stopVoiceSession s)" "\<not> isConnecting (stopVoiceSession s)"
  "audioSourcesRef (stopVoiceSession s) = []"
  "liveSessionRef s = Some i \<Longrightarrow> i < length (sessions s) \<Longrightarrow>
     sessions (stopVoiceSession s) ! i \<noteq> Opened"
  "micStreamRef s = Some m \<Longrightarrow> m < length (micLive s) \<Longrightarrow> \<not> micLive (stopVoiceSession s) ! m"
  "inputAudioCtxRef s = Some a \<Longrightarrow> a < length (contextOpen s) \<Longrightarrow>
     \<not> contextOpen (stopVoiceSession s) ! a"
  "outputAudioCtxRef s = Some b \<Longrightarrow> b < length (contextOpen s) \<Longrightarrow>
     \<not> contextOpen (stopVoiceSession s) ! b"
proof -
  show "\<not> isVoiceConsultOpen (stopVoiceSession s)" "\<not> isConnecting (stopVoiceSession s)"
    "audioSourcesRef (stopVoiceSession s) = []"
    by (simp_all add: stopVoiceSession_def)
  show "liveSessionRef s = Some i \<Longrightarrow> i < length (sessions s) \<Longrightarrow>
     sessions (stopVoiceSession s) ! i \<noteq> Opened"
    by (auto simp: stopVoiceSession_def close_session_def)
  show "micStreamRef s = Some m \<Longrightarrow> m < length (micLive s) \<Longrightarrow> \<not> micLive (stopVoiceSession s) ! m"
    by (simp add: stopVoiceSession_def switch_off_def)
  show "inputAudioCtxRef s = Some a \<Longrightarrow> a < length (contextOpen s) \<Longrightarrow>
     \<not> contextOpen (stopVoiceSession s) ! a"
    by (auto simp: stopVoiceSession_def switch_off_def stays_off split: option.splits)
  show "outputAudioCtxRef s = Some b \<Longrightarrow> b < length (contextOpen s) \<Longrightarrow>
     \<not> contextOpen (stopVoiceSession s) ! b"
    by (auto simp: stopVoiceSession_def switch_off_def split: option.splits)
qed

text \<open>
  What the flags do achieve. In a run in which the user is patient, the invariant
  \<open>one_at_a_time\<close> holds in every state, and so at most one session is open.
\<close>

lemma at_most_one_count:
  "(\<forall>i j. i < length xs \<and> j < length xs \<and> P (xs ! i) \<and> P (xs ! j) \<longrightarrow> i = j)
     \<Longrightarrow> length (filter P xs) \<le> 1"
proof (induction xs)
  case Nil
  then show ?case by simp
next
  case (Cons x xs)
  have tl: "\<forall>i j. i < length xs \<and> j < length xs \<and> P (xs ! i) \<and> P (xs ! j) \<longrightarrow> i = j"
  proof (intro allI impI)
    fix i j assume "i < length xs \<and> j < length xs \<and> P (xs ! i) \<and> P (xs ! j)"
    then have "Suc i = Suc j" using Cons.prems [rule_format, of "Suc i" "Suc j"] by simp
    then show "i = j" by simp
  qed
  show ?case
  proof (cases "P x")
    case True
    have "\<not> P (xs ! j)" if "j < length xs" for j
      using Cons.prems [rule_format, of 0 "Suc j"] True that by auto
    then have "filter P xs = []" by (auto simp: filter_empty_conv in_set_conv_nth)
    with True show ?thesis by simp
  next
    case False
    with Cons.IH [OF tl] show ?thesis by simp
  qed
qed

lemma close_session_facts:
  "length (close_session r ss) = length ss"
  "i < length ss \<Longrightarrow> (close_session r ss ! i = Closed) = (ss ! i = Closed)"
  "i < length ss \<Longrightarrow> close_session r ss ! i = Connecting \<Longrightarrow> ss ! i = Connecting"
  "i < length ss \<Longrightarrow> close_session r ss ! i = Opened \<Longrightarrow> ss ! i = Opened \<and> r \<noteq> Some i"
  by (auto simp: close_session_def nth_list_update split: option.splits if_splits)

lemma stop_fields:
  "sessions (stopVoiceSession s) = close_session (liveSessionRef s) (sessions s)"
  "invocations (stopVoiceSession s) = invocations s"
  "liveSessionRef (stopVoiceSession s) = liveSessionRef s"
  "isVoiceConsultOpen (stopVoiceSession s) = False"
  by (simp_all add: stopVoiceSession_def)

lemma one_at_a_timeI:
  assumes "one_live (sessions s)" "one_waiting (invocations s)"
    "\<And>k. awaiting_mic k s \<Longrightarrow> all_closed_but None (sessions s)"
    "\<And>k sid. awaiting_session k sid s \<Longrightarrow>
        sid < length (sessions s) \<and> all_closed_but (Some sid) (sessions s)"
    "\<And>sid. session_is sid Connecting s \<Longrightarrow> \<exists>k. awaiting_session k sid s"
    "\<And>sid. session_is sid Opened s \<Longrightarrow>
        isVoiceConsultOpen s \<and> (liveSessionRef s = Some sid \<or> (\<exists>k. awaiting_session k sid s))"
  shows "one_at_a_time s"
  unfolding one_at_a_time_def using assms by blast

lemma one_at_a_timeD:
  assumes "one_at_a_time s"
  shows "one_live (sessions s)" "one_waiting (invocations s)"
    "\<And>k. awaiting_mic k s \<Longrightarrow> all_closed_but None (sessions s)"
    "\<And>k sid. awaiting_session k sid s \<Longrightarrow>
        sid < length (sessions s) \<and> all_closed_but (Some sid) (sessions s)"
    "\<And>sid. session_is sid Connecting s \<Longrightarrow> \<exists>k. awaiting_session k sid s"
    "\<And>sid. session_is sid Opened s \<Longrightarrow>
        isVoiceConsultOpen s \<and> (liveSessionRef s = Some sid \<or> (\<exists>k. awaiting_session k sid s))"
  using assms unfolding one_at_a_time_def by blast+

lemma close_session_live: "one_live ss \<Longrightarrow> one_live (close_session r ss)"
  unfolding one_live_def by (auto simp: close_session_facts(1,2))

lemma close_session_closed: "all_closed_but q ss \<Longrightarrow> all_closed_but q (close_session r ss)"
  unfolding all_closed_but_def by (auto simp: close_session_facts(1,2))

lemma stop_one_at_a_time:
  assumes inv: "one_at_a_time s"
    and live: "\<And>sid. session_is sid Opened s \<Longrightarrow> liveSessionRef s = Some sid"
  shows "one_at_a_time (stopVoiceSession s)"
proof (rule one_at_a_timeI)
  note d = one_at_a_timeD [OF inv]
  have am: "awaiting_mic k (stopVoiceSession s) = awaiting_mic k s" for k
    by (simp add: awaiting_mic_def stop_fields)
  have as: "awaiting_session k sid (stopVoiceSession s) = awaiting_session k sid s" for k sid
    by (simp add: awaiting_session_def stop_fields)
  show "one_live (sessions (stopVoiceSession s))"
    using d(1) by (simp add: stop_fields close_session_live)
  show "one_waiting (invocations (stopVoiceSession s))"
    using d(2) by (simp add: stop_fields)
  show "all_closed_but None (sessions (stopVoiceSession s))"
    if "awaiting_mic k (stopVoiceSession s)" for k
    using d(3) [of k] that by (simp add: am stop_fields close_session_closed)
  show "sid < length (sessions (stopVoiceSession s))
        \<and> all_closed_but (Some sid) (sessions (stopVoiceSession s))"
    if "awaiting_session k sid (stopVoiceSession s)" for k sid
    using d(4) [of k sid] that by (simp add: as stop_fields close_session_closed close_session_facts(1))
  show "\<exists>k. awaiting_session k sid (stopVoiceSession s)"
    if "session_is sid Connecting (stopVoiceSession s)" for sid
  proof -
    from that have "session_is sid Connecting s"
      by (auto simp: session_is_def stop_fields close_session_facts(1) dest: close_session_facts(3))
    then show ?thesis using d(5) [of sid] by (simp add: as)
  qed
  show "isVoiceConsultOpen (stopVoiceSession s)
        \<and> (liveSessionRef (stopVoiceSession s) = Some sid
            \<or> (\<exists>k. awaiting_session k sid (stopVoiceSession s)))"
    if "session_is sid Opened (stopVoiceSession s)" for sid
  proof -
    from that have "session_is sid Opened s \<and> liveSessionRef s \<noteq> Some sid"
      using close_session_facts(4) [of sid "sessions s" "liveSessionRef s"]
      by (simp add: session_is_def stop_fields close_session_facts(1))
    then show ?thesis using live [of sid] by simp
  qed
qed


lemma settled_facts:
  assumes "settled s"
  shows "\<not> awaiting_mic k s" "\<not> awaiting_session k sid s"
    "\<not> session_is sid Connecting s" "\<not> session_is sid Closing s"
    "one_waiting (invocations s)"
  using assms
  by (auto simp: settled_def awaiting_mic_def awaiting_session_def session_is_def
        one_waiting_def list_all_length)

lemma settled_opened_is_stored:
  assumes "one_at_a_time s" "settled s" "session_is sid Opened s"
  shows "liveSessionRef s = Some sid" "isVoiceConsultOpen s"
  using one_at_a_timeD(6) [OF assms(1,3)] settled_facts(2) [OF assms(2)] by auto

lemma press_voice_keeps:
  assumes inv: "one_at_a_time s" and st: "settled s"
  shows "one_at_a_time (handleVoiceConsult s)"
proof (cases "isVoiceConsultOpen s \<or> isConnecting s")
  case True
  then have "handleVoiceConsult s = stopVoiceSession s" by (simp add: handleVoiceConsult_def)
  moreover have "one_at_a_time (stopVoiceSession s)"
    using inv settled_opened_is_stored(1) [OF inv st] by (rule stop_one_at_a_time)
  ultimately show ?thesis by simp
next
  case False
  let ?s' = "s\<lparr>isConnecting := True, invocations := invocations s @ [AwaitMic]\<rparr>"
  have eq: "handleVoiceConsult s = ?s'" using False by (simp add: handleVoiceConsult_def)
  have no_open: "\<not> session_is sid Opened s" for sid
    using settled_opened_is_stored(2) [OF inv st, of sid] False by blast
  have all_closed: "sessions s ! i = Closed" if "i < length (sessions s)" for i
    using st that no_open [of i] by (auto simp: settled_def list_all_length session_is_def)
  have old: "invocations s ! k = Settled" if "k < length (invocations s)" for k
    using st that by (auto simp: settled_def list_all_length)
  have "one_at_a_time ?s'"
  proof (rule one_at_a_timeI)
    show "one_live (sessions ?s')" using one_at_a_timeD(1) [OF inv] by simp
    show "one_waiting (invocations ?s')"
      unfolding one_waiting_def using old
      by (auto simp: nth_append less_Suc_eq)
    show "all_closed_but None (sessions ?s')" if "awaiting_mic k ?s'" for k
      using all_closed by (simp add: all_closed_but_def)
    show "sid < length (sessions ?s') \<and> all_closed_but (Some sid) (sessions ?s')"
      if "awaiting_session k sid ?s'" for k sid
      using that old [of k] by (auto simp: awaiting_session_def nth_append less_Suc_eq split: if_splits)
    show "\<exists>k. awaiting_session k sid ?s'" if "session_is sid Connecting ?s'" for sid
      using that all_closed [of sid] by (simp add: session_is_def)
    show "isVoiceConsultOpen ?s' \<and> (liveSessionRef ?s' = Some sid \<or> (\<exists>k. awaiting_session k sid ?s'))"
      if "session_is sid Opened ?s'" for sid
      using that all_closed [of sid] by (simp add: session_is_def)
  qed
  with eq show ?thesis by simp
qed


lemma only_waiting:
  assumes "one_waiting invs" "k < length invs" "invs ! k \<noteq> Settled"
    "l < length invs" "l \<noteq> k"
  shows "invs ! l = Settled"
  using assms unfolding one_waiting_def by blast

lemma only_live:
  assumes "one_live ss" "i < length ss" "ss ! i \<noteq> Closed" "j < length ss" "j \<noteq> i"
  shows "ss ! j = Closed"
  using assms unfolding one_live_def by blast

lemma upd_nth: "k < length xs \<Longrightarrow> xs[k := v] ! l = (if l = k then v else xs ! l)"
  by (auto simp: nth_list_update)

lemma mic_granted_keeps:
  assumes inv: "one_at_a_time s" and w: "awaiting_mic k s"
  shows "one_at_a_time (after_microphone k s)"
proof (rule one_at_a_timeI)
  let ?n = "length (sessions s)"
  let ?s' = "after_microphone k s"
  have k: "k < length (invocations s)" "invocations s ! k = AwaitMic"
    using w by (auto simp: awaiting_mic_def)
  have closed: "sessions s ! i = Closed" if "i < ?n" for i
    using one_at_a_timeD(3) [OF inv w] that by (simp add: all_closed_but_def)
  have others: "invocations s ! l = Settled" if "l < length (invocations s)" "l \<noteq> k" for l
    using only_waiting [OF one_at_a_timeD(2) [OF inv] k(1) _ that] k(2) by simp
  have se: "sessions ?s' = sessions s @ [Connecting]"
    and iv: "invocations ?s' = (invocations s)[k := AwaitSession ?n]"
    by (simp_all add: after_microphone_def)
  show "one_live (sessions ?s')"
    unfolding one_live_def se using closed by (auto simp: nth_append less_Suc_eq)
  show "one_waiting (invocations ?s')"
  proof -
    have "ka = l" if "ka < length (invocations s)" "l < length (invocations s)"
      "(invocations s)[k := AwaitSession ?n] ! ka \<noteq> Settled"
      "(invocations s)[k := AwaitSession ?n] ! l \<noteq> Settled" for ka l
    proof -
      have "ka = k" using that(1,3) others [of ka] by (cases "ka = k") (auto simp: upd_nth [OF k(1)])
      moreover have "l = k" using that(2,4) others [of l] by (cases "l = k") (auto simp: upd_nth [OF k(1)])
      ultimately show ?thesis by simp
    qed
    then show ?thesis unfolding one_waiting_def iv by simp
  qed
  show "all_closed_but None (sessions ?s')" if "awaiting_mic l ?s'" for l
    using that others [of l] by (auto simp: awaiting_mic_def iv upd_nth [OF k(1)] split: if_splits)
  show "sid < length (sessions ?s') \<and> all_closed_but (Some sid) (sessions ?s')"
    if "awaiting_session l sid ?s'" for l sid
  proof -
    from that others [of l] have "sid = ?n"
      by (auto simp: awaiting_session_def iv upd_nth [OF k(1)] split: if_splits)
    then show ?thesis using closed by (auto simp: se all_closed_but_def nth_append less_Suc_eq)
  qed
  show "\<exists>l. awaiting_session l sid ?s'" if "session_is sid Connecting ?s'" for sid
  proof -
    from that closed [of sid] have "sid = ?n"
      by (auto simp: session_is_def se nth_append less_Suc_eq split: if_splits)
    then have "awaiting_session k sid ?s'" using k by (simp add: awaiting_session_def iv)
    then show ?thesis ..
  qed
  show "isVoiceConsultOpen ?s' \<and> (liveSessionRef ?s' = Some sid \<or> (\<exists>l. awaiting_session l sid ?s'))"
    if "session_is sid Opened ?s'" for sid
    using that closed [of sid]
    by (auto simp: session_is_def se nth_append less_Suc_eq split: if_splits)
qed

lemma quiet_one_at_a_time:
  assumes "\<And>i. i < length (sessions s) \<Longrightarrow> sessions s ! i = Closed"
    and "\<And>k. k < length (invocations s) \<Longrightarrow> invocations s ! k = Settled"
  shows "one_at_a_time s"
  using assms
  by (intro one_at_a_timeI)
     (auto simp: one_live_def one_waiting_def all_closed_but_def awaiting_mic_def
        awaiting_session_def session_is_def)

lemma quiet_no_opened:
  assumes "\<And>i. i < length (sessions s) \<Longrightarrow> sessions s ! i = Closed"
  shows "session_is sid Opened s \<Longrightarrow> liveSessionRef s = Some sid"
  using assms [of sid] by (simp add: session_is_def)

lemma mic_denied_keeps:
  assumes inv: "one_at_a_time s" and w: "awaiting_mic k s"
  shows "one_at_a_time (catch_block k s)"
proof -
  let ?s1 = "s\<lparr>isConnecting := False, invocations := (invocations s)[k := Settled]\<rparr>"
  have k: "k < length (invocations s)" "invocations s ! k = AwaitMic"
    using w by (auto simp: awaiting_mic_def)
  have closed: "sessions ?s1 ! i = Closed" if "i < length (sessions ?s1)" for i
    using one_at_a_timeD(3) [OF inv w] that by (simp add: all_closed_but_def)
  have fin: "invocations ?s1 ! l = Settled" if "l < length (invocations ?s1)" for l
    using only_waiting [OF one_at_a_timeD(2) [OF inv] k(1), of l] k(2) that
    by (cases "l = k") (auto simp: upd_nth [OF k(1)])
  have "one_at_a_time (stopVoiceSession ?s1)"
    using quiet_one_at_a_time [of ?s1, OF closed fin] quiet_no_opened [of ?s1, OF closed]
    by (rule stop_one_at_a_time)
  then show ?thesis by (simp add: catch_block_def)
qed


lemma session_opens_keeps:
  assumes inv: "one_at_a_time s" and c: "session_is sid Connecting s"
  shows "one_at_a_time (onopen (set_session sid Opened s))"
proof (rule one_at_a_timeI)
  let ?s' = "onopen (set_session sid Opened s)"
  have sid: "sid < length (sessions s)" "sessions s ! sid = Connecting"
    using c by (auto simp: session_is_def)
  obtain k where k: "awaiting_session k sid s" using one_at_a_timeD(5) [OF inv c] by blast
  then have kk: "k < length (invocations s)" "invocations s ! k = AwaitSession sid"
    by (auto simp: awaiting_session_def)
  have others: "sessions s ! i = Closed" if "i < length (sessions s)" "i \<noteq> sid" for i
    using only_live [OF one_at_a_timeD(1) [OF inv] sid(1) _ that] sid(2) by simp
  have waiting: "invocations s ! l = Settled" if "l < length (invocations s)" "l \<noteq> k" for l
    using only_waiting [OF one_at_a_timeD(2) [OF inv] kk(1) _ that] kk(2) by simp
  have se: "sessions ?s' = (sessions s)[sid := Opened]"
    and iv: "invocations ?s' = invocations s" and op: "isVoiceConsultOpen ?s'"
    by (simp_all add: onopen_def set_session_def)
  have k': "awaiting_session k sid ?s'" using k by (simp add: awaiting_session_def iv)
  show "one_live (sessions ?s')"
    unfolding one_live_def se using others
    by (auto simp: upd_nth [OF sid(1)] split: if_splits)
  show "one_waiting (invocations ?s')" using one_at_a_timeD(2) [OF inv] by (simp add: iv)
  show "all_closed_but None (sessions ?s')" if "awaiting_mic l ?s'" for l
    using that waiting [of l] kk by (cases "l = k") (auto simp: awaiting_mic_def iv)
  show "sid' < length (sessions ?s') \<and> all_closed_but (Some sid') (sessions ?s')"
    if "awaiting_session l sid' ?s'" for l sid'
  proof -
    from that waiting [of l] kk have "sid' = sid"
      by (cases "l = k") (auto simp: awaiting_session_def iv)
    then show ?thesis using sid(1) others
      by (auto simp: se all_closed_but_def upd_nth [OF sid(1)])
  qed
  show "\<exists>l. awaiting_session l sid' ?s'" if "session_is sid' Connecting ?s'" for sid'
    using that others [of sid']
    by (cases "sid' = sid") (auto simp: session_is_def se upd_nth [OF sid(1)])
  show "isVoiceConsultOpen ?s' \<and> (liveSessionRef ?s' = Some sid' \<or> (\<exists>l. awaiting_session l sid' ?s'))"
    if "session_is sid' Opened ?s'" for sid'
  proof -
    from that others [of sid'] have "sid' = sid"
      by (cases "sid' = sid") (auto simp: session_is_def se upd_nth [OF sid(1)])
    then show ?thesis using op k' by blast
  qed
qed

lemma connect_resolves_keeps:
  assumes inv: "one_at_a_time s" and w: "awaiting_session k sid s"
    and nc: "\<not> session_is sid Connecting s"
  shows "one_at_a_time (after_connect k sid s)"
proof (rule one_at_a_timeI)
  let ?s' = "after_connect k sid s"
  have kk: "k < length (invocations s)" "invocations s ! k = AwaitSession sid"
    using w by (auto simp: awaiting_session_def)
  have waiting: "invocations s ! l = Settled" if "l < length (invocations s)" "l \<noteq> k" for l
    using only_waiting [OF one_at_a_timeD(2) [OF inv] kk(1) _ that] kk(2) by simp
  have fin: "invocations ?s' ! l = Settled" if "l < length (invocations s)" for l
    using waiting [of l] that by (cases "l = k") (auto simp: after_connect_def upd_nth [OF kk(1)])
  have se: "sessions ?s' = sessions s" and lv: "liveSessionRef ?s' = Some sid"
    and op: "isVoiceConsultOpen ?s' = isVoiceConsultOpen s"
    and ln: "length (invocations ?s') = length (invocations s)"
    by (simp_all add: after_connect_def)
  note s = one_at_a_timeD(4) [OF inv w]
  show "one_live (sessions ?s')" using one_at_a_timeD(1) [OF inv] by (simp add: se)
  show "one_waiting (invocations ?s')"
    unfolding one_waiting_def using fin by (auto simp: ln)
  show "all_closed_but None (sessions ?s')" if "awaiting_mic l ?s'" for l
    using that fin [of l] by (cases "l < length (invocations s)") (auto simp: awaiting_mic_def ln)
  show "sid' < length (sessions ?s') \<and> all_closed_but (Some sid') (sessions ?s')"
    if "awaiting_session l sid' ?s'" for l sid'
    using that fin [of l] by (cases "l < length (invocations s)") (auto simp: awaiting_session_def ln)
  show "\<exists>l. awaiting_session l sid' ?s'" if "session_is sid' Connecting ?s'" for sid'
  proof -
    from that have c: "session_is sid' Connecting s" by (simp add: session_is_def se)
    then have "sid' = sid" using s by (auto simp: session_is_def all_closed_but_def)
    with c nc show ?thesis by simp
  qed
  show "isVoiceConsultOpen ?s' \<and> (liveSessionRef ?s' = Some sid' \<or> (\<exists>l. awaiting_session l sid' ?s'))"
    if "session_is sid' Opened ?s'" for sid'
  proof -
    from that have o: "session_is sid' Opened s" by (simp add: session_is_def se)
    then have "sid' = sid" using s by (auto simp: session_is_def all_closed_but_def)
    then show ?thesis using one_at_a_timeD(6) [OF inv o] by (simp add: lv op)
  qed
qed

lemma connect_rejects_keeps:
  assumes inv: "one_at_a_time s" and w: "awaiting_session k sid s"
  shows "one_at_a_time (catch_block k (set_session sid Closed s))"
proof -
  let ?s0 = "set_session sid Closed s"
  let ?s1 = "?s0\<lparr>isConnecting := False, invocations := (invocations ?s0)[k := Settled]\<rparr>"
  have kk: "k < length (invocations s)" "invocations s ! k = AwaitSession sid"
    using w by (auto simp: awaiting_session_def)
  note s = one_at_a_timeD(4) [OF inv w]
  have closed: "sessions ?s1 ! i = Closed" if "i < length (sessions ?s1)" for i
    using s that by (cases "i = sid") (auto simp: set_session_def all_closed_but_def)
  have fin: "invocations ?s1 ! l = Settled" if "l < length (invocations ?s1)" for l
    using only_waiting [OF one_at_a_timeD(2) [OF inv] kk(1), of l] kk(2) that
    by (cases "l = k") (auto simp: set_session_def upd_nth [OF kk(1)])
  have "one_at_a_time (stopVoiceSession ?s1)"
    using quiet_one_at_a_time [of ?s1, OF closed fin] quiet_no_opened [of ?s1, OF closed]
    by (rule stop_one_at_a_time)
  then show ?thesis by (simp add: catch_block_def)
qed


lemma onmessage_fields:
  "sessions (onmessage t m s) = sessions s" "invocations (onmessage t m s) = invocations s"
  "liveSessionRef (onmessage t m s) = liveSessionRef s"
  "isVoiceConsultOpen (onmessage t m s) = isVoiceConsultOpen s"
  by (auto simp: onmessage_def Let_def split: sum.splits option.splits)

lemma message_keeps: "one_at_a_time s \<Longrightarrow> one_at_a_time (onmessage t m s)"
  unfolding one_at_a_time_def awaiting_mic_def awaiting_session_def session_is_def
    onmessage_fields by simp

lemma session_fades_keeps:
  assumes inv: "one_at_a_time s" and sid: "sid < length (sessions s)"
    and live: "sessions s ! sid \<noteq> Closed" and st: "st = Closing \<or> st = Closed"
  shows "one_at_a_time (stopVoiceSession (set_session sid st s))"
proof -
  let ?s1 = "set_session sid st s"
  have others: "sessions s ! i = Closed" if "i < length (sessions s)" "i \<noteq> sid" for i
    using only_live [OF one_at_a_timeD(1) [OF inv] sid live that] .
  have se: "sessions ?s1 = (sessions s)[sid := st]" and iv: "invocations ?s1 = invocations s"
    by (simp_all add: set_session_def)
  have am: "awaiting_mic k ?s1 = awaiting_mic k s" for k
    by (simp add: awaiting_mic_def iv)
  have as: "awaiting_session k x ?s1 = awaiting_session k x s" for k x
    by (simp add: awaiting_session_def iv)
  have no_conn: "\<not> session_is x Connecting ?s1" for x
    using others [of x] st
    by (cases "x = sid") (auto simp: session_is_def se upd_nth [OF sid])
  have no_open: "\<not> session_is x Opened ?s1" for x
    using others [of x] st
    by (cases "x = sid") (auto simp: session_is_def se upd_nth [OF sid])
  have "one_at_a_time ?s1"
  proof (rule one_at_a_timeI)
    show "one_live (sessions ?s1)"
      unfolding one_live_def se using others by (auto simp: upd_nth [OF sid] split: if_splits)
    show "one_waiting (invocations ?s1)" using one_at_a_timeD(2) [OF inv] by (simp add: iv)
    show "all_closed_but None (sessions ?s1)" if "awaiting_mic k ?s1" for k
      using one_at_a_timeD(3) [OF inv, of k] that live sid
      by (auto simp: am all_closed_but_def)
    show "x < length (sessions ?s1) \<and> all_closed_but (Some x) (sessions ?s1)"
      if "awaiting_session k x ?s1" for k x
    proof -
      have x: "x < length (sessions s)" "all_closed_but (Some x) (sessions s)"
        using one_at_a_timeD(4) [OF inv, of k x] that by (simp_all add: as)
      then have "x = sid" using live sid by (auto simp: all_closed_but_def)
      then show ?thesis using x others by (auto simp: se all_closed_but_def upd_nth [OF sid])
    qed
    show "\<exists>k. awaiting_session k x ?s1" if "session_is x Connecting ?s1" for x
      using that no_conn by blast
    show "isVoiceConsultOpen ?s1 \<and> (liveSessionRef ?s1 = Some x \<or> (\<exists>k. awaiting_session k x ?s1))"
      if "session_is x Opened ?s1" for x
      using that no_open by blast
  qed
  moreover have "liveSessionRef ?s1 = Some x" if "session_is x Opened ?s1" for x
    using that no_open by blast
  ultimately show ?thesis by (rule stop_one_at_a_time)
qed

lemma voice_step_keeps:
  assumes "voice_step e s = Some s'" "one_at_a_time s" "is_press e \<longrightarrow> settled s"
  shows "one_at_a_time s'"
proof (cases e)
  case PressVoice
  with assms show ?thesis by (auto simp: press_voice_keeps split: if_splits)
next
  case PressTerminate
  with assms have "s' = stopVoiceSession s" "settled s" by (auto split: if_splits)
  then show ?thesis
    using stop_one_at_a_time [OF assms(2) settled_opened_is_stored(1) [OF assms(2)]] by blast
next
  case (MicGranted k)
  with assms show ?thesis by (auto simp: mic_granted_keeps split: if_splits)
next
  case (MicDenied k)
  with assms show ?thesis by (auto simp: mic_denied_keeps split: if_splits)
next
  case (SessionOpens sid)
  with assms show ?thesis by (auto simp: session_opens_keeps split: if_splits)
next
  case (ConnectResolves k)
  with assms obtain sid where "awaiting_session k sid s" "\<not> session_is sid Connecting s"
    "s' = after_connect k sid s"
    by (auto simp: awaiting_session_def split: if_splits invocation.splits)
  then show ?thesis using connect_resolves_keeps [OF assms(2)] by blast
next
  case (ConnectRejects k)
  with assms obtain sid where "awaiting_session k sid s"
    "s' = catch_block k (set_session sid Closed s)"
    by (auto simp: awaiting_session_def split: if_splits invocation.splits)
  then show ?thesis using connect_rejects_keeps [OF assms(2)] by blast
next
  case (SessionMessage sid t m)
  with assms show ?thesis by (auto simp: message_keeps split: if_splits)
next
  case (SessionError sid)
  with assms have "sid < length (sessions s)" "sessions s ! sid \<noteq> Closed"
    "s' = stopVoiceSession (set_session sid Closing s)"
    by (auto simp: session_is_def split: if_splits)
  then show ?thesis using session_fades_keeps [OF assms(2), of sid Closing] by simp
next
  case (SessionCloses sid)
  with assms have "sid < length (sessions s)" "sessions s ! sid \<noteq> Closed"
    "s' = stopVoiceSession (set_session sid Closed s)"
    by (auto simp: session_is_def split: if_splits)
  then show ?thesis using session_fades_keeps [OF assms(2), of sid Closed] by simp
qed

lemma patient_run_keeps:
  "patient_run evs s = Some s' \<Longrightarrow> one_at_a_time s \<Longrightarrow> one_at_a_time s'"
proof (induction evs arbitrary: s)
  case Nil
  then show ?case by simp
next
  case (Cons e evs)
  from Cons.prems(1) obtain s1 where s1: "voice_step e s = Some s1" "patient_run evs s1 = Some s'"
    "is_press e \<longrightarrow> settled s"
    by (auto split: if_splits option.splits)
  have "one_at_a_time s1" using s1(1) Cons.prems(2) s1(3) by (rule voice_step_keeps)
  with Cons.IH s1(2) show ?case by blast
qed

lemma initial_one_at_a_time: "one_at_a_time initial_voice"
  by (rule quiet_one_at_a_time) (simp_all add: initial_voice_def)

lemma patient_one_session:
  assumes "patient_run evs initial_voice = Some s"
  shows "open_sessions s \<le> 1"
proof -
  have "one_at_a_time s" using assms initial_one_at_a_time by (rule patient_run_keeps)
  then have "one_live (sessions s)" by (rule one_at_a_timeD(1))
  then have "\<forall>i j. i < length (sessions s) \<and> j < length (sessions s)
      \<and> sessions s ! i = Opened \<and> sessions s ! j = Opened \<longrightarrow> i = j"
    unfolding one_live_def by auto
  then show ?thesis unfolding open_sessions_def by (rule at_most_one_count)
qed

text \<open>
  C6, on the code. A session is opened and terminated; the user presses the voice button
  again, and while that call waits for the microphone the \<open>onclose\<close> of the terminated
  session arrives and runs \<open>stopVoiceSession\<close>, which clears \<open>isConnecting\<close> and so
  enables the button; the user presses once more. Both calls go on to connect, and both
  sessions open: two sessions are open at once. When the user then terminates, only the
  session in \<open>liveSessionRef\<close> is closed; the other stays open with its microphone live.
\<close>

theorem two_sessions_open:
  "map_option (\<lambda>s. (sessions s, open_sessions s, micLive s))
     (voice_run
        [PressVoice, MicGranted 0, SessionOpens 0, ConnectResolves 0, PressTerminate,
         PressVoice, SessionCloses 0, PressVoice, MicGranted 1, MicGranted 2,
         SessionOpens 1, SessionOpens 2] initial_voice)
     = Some ([Closed, Opened, Opened], 2, [False, True, True])
   \<and> map_option (\<lambda>s. (isVoiceConsultOpen s, isConnecting s, sessions s, micLive s))
     (voice_run
        [PressVoice, MicGranted 0, SessionOpens 0, ConnectResolves 0, PressTerminate,
         PressVoice, SessionCloses 0, PressVoice, MicGranted 1, MicGranted 2,
         SessionOpens 1, SessionOpens 2, ConnectResolves 1, ConnectResolves 2,
         PressTerminate] initial_voice)
     = Some (False, False, [Closed, Opened, Closing], [False, True, False])"
  by (simp add: initial_voice_def handleVoiceConsult_def stopVoiceSession_def
        after_microphone_def after_connect_def onopen_def awaiting_mic_def session_is_def
        set_session_def close_session_def switch_off_def stop_sources_def open_sessions_def)

end
